theory Spec2Isabelle
  imports Main "HOL-Library.Word" "HOL-Library.Signed_Division"
begin

unbundle bit_operations_syntax

section \<open>The kernel monitor of kern/monitor.c\<close>

text \<open>
  A shallow embedding of the JOS kernel monitor. Machine words are \<open>32 word\<close>
  (\<open>uint32_t\<close>, \<open>uintptr_t\<close>, \<open>pte_t\<close>, and \<open>int\<close> read bitwise). C strings are
  \<open>string\<close>s without the terminator; the line buffer is a \<open>string\<close> that holds its
  terminators. Console output and the calls to the external collaborators are recorded
  as a trace of events.
\<close>

type_synonym u32 = "32 word"

subsection \<open>Constants of the headers\<close>

text \<open>
  Modelled from the spec: inc/mmu.h is not part of the sources. The spec describes the
  page-table entry as a 32-bit x86 word whose low bits are present (P), writeable (W)
  and user (U) and whose high bits are the frame address; the values below are the x86
  ones (bits 0, 1, 2, pages of 4096 bytes).
\<close>

definition PTE_P :: u32 where "PTE_P = 0x001"
definition PTE_W :: u32 where "PTE_W = 0x002"
definition PTE_U :: u32 where "PTE_U = 0x004"
definition PGSIZE :: u32 where "PGSIZE = 4096"

definition PTE_ADDR :: "u32 \<Rightarrow> u32" where
  "PTE_ADDR pte = pte AND NOT 0xFFF"

text \<open>
  Modelled from the spec: the macro ROUNDUP of inc/types.h is not part of the sources.
  The spec calls it rounding up to a whole kilobyte; it is computed on 32-bit unsigned
  values, as the smallest multiple of \<open>n\<close> that is at least \<open>a\<close>.
\<close>

definition ROUNDUP :: "u32 \<Rightarrow> u32 \<Rightarrow> u32" where
  "ROUNDUP a n = (a + n - 1) - (a + n - 1) mod n"

text \<open>Division of two C \<open>int\<close>s: the quotient is truncated towards zero.\<close>

definition int_div :: "u32 \<Rightarrow> u32 \<Rightarrow> u32" where
  "int_div a b = word_of_int (sint a sdiv sint b)"

definition MAXARGS :: nat where "MAXARGS = 16"

definition NUL :: char where "NUL = CHR 0x00"

definition WHITESPACE :: string where
  "WHITESPACE = [CHR 0x09, CHR 0x0D, CHR 0x0A, CHR '' '']"

subsection \<open>Events and outcomes\<close>

datatype arg = Num u32 | Txt string

datatype handler = Mon_help | Mon_kerninfo | Mon_backtrace | Mon_showmapping | Mon_setpermission

text \<open>
  \<open>Cprintf fmt args\<close> is one call of \<open>cprintf\<close>; \<open>Pgdir_walk va\<close> is one call
  \<open>pgdir_walk(kern_pgdir, va, 0)\<close>; \<open>Panic msg\<close> is the call of \<open>panic\<close>, which does not
  return; \<open>Call h argv\<close> is the call of a command's handler through the table.
\<close>

datatype event =
    Cprintf string "arg list"
  | Pgdir_walk u32
  | Panic string
  | Call handler "string list"

text \<open>
  How a piece of code ends: it returns an \<open>int\<close>, it halts the kernel in \<open>panic\<close>, it
  does something C leaves undefined (a null pointer dereferenced, a read or write outside
  an array), or the model's bound on loop iterations ran out before the code ended.
\<close>

datatype outcome = Returned int | Panicked | Undefined | Out_of_fuel

record Eipdebuginfo =
  eip_file :: string
  eip_line :: u32
  eip_fn_name :: string
  eip_fn_namelen :: u32
  eip_fn_addr :: u32

text \<open>
  The kernel state the monitor works on, and the external collaborators it calls:
  \<open>mem a\<close> is the 32-bit word read at address \<open>a\<close>; \<open>pgdir_walk va\<close> is the result of
  \<open>pgdir_walk(kern_pgdir, va, 0)\<close>, the address of the page-table entry or \<open>None\<close> for
  the null pointer; \<open>strtol16 s\<close> is \<open>(uintptr_t) strtol(s, &ptr, 16)\<close>; the symbols are
  the linker's; \<open>KERNBASE\<close> is the constant of inc/memlayout.h.
\<close>

record kernel =
  mem :: "u32 \<Rightarrow> u32"
  pgdir_walk :: "u32 \<Rightarrow> u32 option"
  read_ebp :: u32
  debuginfo_eip :: "u32 \<Rightarrow> Eipdebuginfo option"
  strtol16 :: "string \<Rightarrow> u32"
  sym_start :: u32
  sym_entry :: u32
  sym_etext :: u32
  sym_edata :: u32
  sym_end :: u32
  KERNBASE :: u32

subsection \<open>setpermission\<close>

text \<open>The block that prints one entry, written three times in the source.\<close>

definition show_entry :: "u32 \<Rightarrow> u32 \<Rightarrow> event" where
  "show_entry addr entry =
     (if entry AND PTE_P \<noteq> 0 then
        Cprintf ''Virtual address: 0x%x, physical address: 0x%x\<newline>  PTE_P: %d, PTE_W: %d, PTE_U: %d\<newline>''
          [Num addr, Num (PTE_ADDR entry),
           Num (if entry AND PTE_P \<noteq> 0 then 1 else 0),
           Num (if entry AND PTE_W \<noteq> 0 then 1 else 0),
           Num (if entry AND PTE_U \<noteq> 0 then 1 else 0)]
      else Cprintf ''0x%x: page table entry doesn't exist.\<newline>'' [Num addr])"

text \<open>\<open>switch(perm)\<close>: the mask of the selected bit, 0 for any other character.\<close>

definition perm_mask :: "char \<Rightarrow> u32" where
  "perm_mask perm =
     (if perm = CHR ''p'' then PTE_P
      else if perm = CHR ''w'' then PTE_W
      else if perm = CHR ''u'' then PTE_U
      else 0)"

text \<open>\<open>switch(set)\<close>: the new value of \<open>*entry\<close>.\<close>

definition set_entry :: "char \<Rightarrow> u32 \<Rightarrow> u32 \<Rightarrow> u32" where
  "set_entry set' p entry =
     (if set' = CHR ''s'' then entry OR p
      else if set' = CHR ''c'' then entry AND NOT p
      else entry)"

text \<open>\<open>s[0]\<close> of a C string: the terminator when the string is empty.\<close>

definition first_char :: "string \<Rightarrow> char" where
  "first_char s = (case s of [] \<Rightarrow> NUL | c # _ \<Rightarrow> c)"

definition mon_setpermission :: "kernel \<Rightarrow> string list \<Rightarrow> event list \<times> outcome \<times> kernel" where
  "mon_setpermission k argv =
     (if length argv \<noteq> 4 then
        ([Cprintf ''Usage: setpermission ADDR [s|c] [p|w|u]\<newline>'' []], Returned 0, k)
      else
        let addr = strtol16 k (argv ! 1);
            set' = first_char (argv ! 2);
            perm = first_char (argv ! 3)
        in case pgdir_walk k addr of
             None \<Rightarrow> ([Pgdir_walk addr, Cprintf ''Before setting:\<newline>'' []], Undefined, k)
           | Some entry \<Rightarrow>
               let old = mem k entry;
                   new = set_entry set' (perm_mask perm) old
               in ([Pgdir_walk addr,
                    Cprintf ''Before setting:\<newline>'' [],
                    show_entry addr old,
                    Cprintf ''After setting:\<newline>'' [],
                    show_entry addr new],
                   Returned 0,
                   k\<lparr>mem := (mem k)(entry := new)\<rparr>))"

subsection \<open>showmappings\<close>

text \<open>
  The \<open>while (begin <= end)\<close> loop. The first argument bounds the number of times the
  body runs: the loop need not end, and \<open>Out_of_fuel\<close> says that the guard still held
  when the bound was used up. \<open>begin += PGSIZE\<close> wraps around at \<open>2 ^ 32\<close>.
\<close>

fun showmapping_loop :: "nat \<Rightarrow> kernel \<Rightarrow> u32 \<Rightarrow> u32 \<Rightarrow> event list \<times> outcome" where
  "showmapping_loop 0 k begin' end' =
     (if begin' \<le> end' then ([], Out_of_fuel) else ([], Returned 0))"
| "showmapping_loop (Suc n) k begin' end' =
     (if begin' \<le> end' then
        (case pgdir_walk k begin' of
           None \<Rightarrow> ([Pgdir_walk begin', Panic ''pgdir_walk out of memory.\<newline>''], Panicked)
         | Some entry \<Rightarrow>
             (case showmapping_loop n k (begin' + PGSIZE) end' of
                (evs, r) \<Rightarrow> (Pgdir_walk begin' # show_entry begin' (mem k entry) # evs, r)))
      else ([], Returned 0))"

text \<open>
  \<open>begin < 0\<close> and \<open>end < 0\<close> are comparisons of unsigned values with 0. After the
  diagnostic the function goes on to the loop.
\<close>

definition mon_showmapping :: "nat \<Rightarrow> kernel \<Rightarrow> string list \<Rightarrow> event list \<times> outcome" where
  "mon_showmapping fuel k argv =
     (if length argv \<noteq> 3 then
        ([Cprintf ''Usage: showmappings BEGIN_ADDR END_ADDR\<newline>'' []], Returned 0)
      else
        let begin' = strtol16 k (argv ! 1);
            end' = strtol16 k (argv ! 2);
            diag = (if begin' < 0 \<or> end' < 0 \<or> begin' > end'
                    then [Cprintf ''Invalid address input.\<newline>'' []] else [])
        in case showmapping_loop fuel k begin' end' of
             (evs, r) \<Rightarrow> (diag @ evs, r))"

subsection \<open>backtrace\<close>

definition raw_fmt :: string where
  "raw_fmt = ''  ebp %08x eip %08x args %08x %08x %08x %08x %08x\<newline>''"

definition raw_line :: "kernel \<Rightarrow> u32 \<Rightarrow> event" where
  "raw_line k ebp =
     Cprintf raw_fmt
       [Num ebp, Num (mem k (ebp + 4)), Num (mem k (ebp + 8)), Num (mem k (ebp + 12)),
        Num (mem k (ebp + 16)), Num (mem k (ebp + 20)), Num (mem k (ebp + 24))]"

definition sym_fmt :: string where
  "sym_fmt = ''  '' @ [CHR 0x09, CHR 0x09] @ ''%s:%d %.*s+%d\<newline>''"

definition sym_lines :: "kernel \<Rightarrow> u32 \<Rightarrow> event list" where
  "sym_lines k eip =
     (case debuginfo_eip k eip of
        Some info \<Rightarrow>
          [Cprintf sym_fmt
             [Txt (eip_file info), Num (eip_line info), Num (eip_fn_namelen info),
              Txt (eip_fn_name info), Num (eip - eip_fn_addr info)]]
      | None \<Rightarrow> [])"

text \<open>
  The \<open>while (ebp != 0)\<close> loop, with a bound on the number of times the body runs: a
  frame-pointer chain that never reaches zero keeps the loop running.
\<close>

fun backtrace_loop :: "nat \<Rightarrow> kernel \<Rightarrow> u32 \<Rightarrow> event list \<times> outcome" where
  "backtrace_loop 0 k ebp = (if ebp \<noteq> 0 then ([], Out_of_fuel) else ([], Returned 0))"
| "backtrace_loop (Suc n) k ebp =
     (if ebp \<noteq> 0 then
        (case backtrace_loop n k (mem k ebp) of
           (evs, r) \<Rightarrow> (raw_line k ebp # sym_lines k (mem k (ebp + 4)) @ evs, r))
      else ([], Returned 0))"

definition mon_backtrace :: "nat \<Rightarrow> kernel \<Rightarrow> string list \<Rightarrow> event list \<times> outcome" where
  "mon_backtrace fuel k argv =
     (case backtrace_loop fuel k (read_ebp k) of
        (evs, r) \<Rightarrow> (Cprintf ''Stack backtrace:\<newline>'' [] # evs, r))"

subsection \<open>kerninfo\<close>

text \<open>
  \<open>end - entry\<close> is a difference of pointers, an \<open>int\<close>; ROUNDUP gives its result the
  type of its argument, so the division by 1024 is the signed one.
\<close>

definition footprint :: "kernel \<Rightarrow> u32" where
  "footprint k = int_div (ROUNDUP (sym_end k - sym_entry k) 1024) 1024"

definition mon_kerninfo :: "kernel \<Rightarrow> string list \<Rightarrow> event list \<times> outcome" where
  "mon_kerninfo k argv =
     ([Cprintf ''Special kernel symbols:\<newline>'' [],
       Cprintf ''  _start                  %08x (phys)\<newline>'' [Num (sym_start k)],
       Cprintf ''  entry  %08x (virt)  %08x (phys)\<newline>''
         [Num (sym_entry k), Num (sym_entry k - KERNBASE k)],
       Cprintf ''  etext  %08x (virt)  %08x (phys)\<newline>''
         [Num (sym_etext k), Num (sym_etext k - KERNBASE k)],
       Cprintf ''  edata  %08x (virt)  %08x (phys)\<newline>''
         [Num (sym_edata k), Num (sym_edata k - KERNBASE k)],
       Cprintf ''  end    %08x (virt)  %08x (phys)\<newline>''
         [Num (sym_end k), Num (sym_end k - KERNBASE k)],
       Cprintf ''Kernel executable memory footprint: %dKB\<newline>'' [Num (footprint k)]],
      Returned 0)"

subsection \<open>The command table and help\<close>

record Command =
  name :: string
  desc :: string
  func :: handler

definition commands :: "Command list" where
  "commands =
     [\<lparr>name = ''help'', desc = ''Display this list of commands'', func = Mon_help\<rparr>,
      \<lparr>name = ''kerninfo'', desc = ''Display information about the kernel'', func = Mon_kerninfo\<rparr>,
      \<lparr>name = ''backtrace'', desc = ''Display backtrack of the call'', func = Mon_backtrace\<rparr>,
      \<lparr>name = ''showmappings'', desc = ''Display virtual/linear to physical mapping'',
       func = Mon_showmapping\<rparr>,
      \<lparr>name = ''setpremission'', desc = ''Set permission of page table'',
       func = Mon_setpermission\<rparr>]"

definition mon_help :: "kernel \<Rightarrow> string list \<Rightarrow> event list \<times> outcome" where
  "mon_help k argv =
     (map (\<lambda>c. Cprintf ''%s - %s\<newline>'' [Txt (name c), Txt (desc c)]) commands, Returned 0)"

text \<open>The call \<open>commands[i].func(argc, argv, tf)\<close>.\<close>

fun call :: "handler \<Rightarrow> nat \<Rightarrow> kernel \<Rightarrow> string list \<Rightarrow> event list \<times> outcome \<times> kernel" where
  "call Mon_help fuel k argv = (case mon_help k argv of (evs, r) \<Rightarrow> (evs, r, k))"
| "call Mon_kerninfo fuel k argv = (case mon_kerninfo k argv of (evs, r) \<Rightarrow> (evs, r, k))"
| "call Mon_backtrace fuel k argv = (case mon_backtrace fuel k argv of (evs, r) \<Rightarrow> (evs, r, k))"
| "call Mon_showmapping fuel k argv = (case mon_showmapping fuel k argv of (evs, r) \<Rightarrow> (evs, r, k))"
| "call Mon_setpermission fuel k argv = mon_setpermission k argv"

subsection \<open>The command interpreter\<close>

text \<open>
  Modelled from the spec: \<open>strchr\<close> of lib/string.c is not part of the sources. The
  spec's whitespace class is exactly the characters of \<open>WHITESPACE\<close>; \<open>strchr(s, c)\<close> is
  only called on a character other than the terminator, and there it finds \<open>c\<close> exactly
  when \<open>c\<close> occurs in \<open>s\<close>.
\<close>

definition strchr :: "string \<Rightarrow> char \<Rightarrow> bool" where
  "strchr s c = (c \<in> set s)"

text \<open>
  The line buffer is the list of bytes from the start of the line on, the pointer
  \<open>buf\<close> an index into it. A read at an index outside the list is a read past the
  memory the caller handed over: the result is \<open>None\<close>.

  \<open>while (*buf && strchr(WHITESPACE, *buf)) *buf++ = 0;\<close>
\<close>

function gobble :: "string \<Rightarrow> nat \<Rightarrow> (string \<times> nat) option" where
  "gobble buf p =
     (if p < length buf then
        (if buf ! p \<noteq> NUL \<and> strchr WHITESPACE (buf ! p)
         then gobble (buf[p := NUL]) (Suc p)
         else Some (buf, p))
      else None)"
  by pat_completeness auto
termination
  by (relation "measure (\<lambda>(buf, p). length buf - p)") auto

text \<open>\<open>while (*buf && !strchr(WHITESPACE, *buf)) buf++;\<close>\<close>

function scan_arg :: "string \<Rightarrow> nat \<Rightarrow> nat option" where
  "scan_arg buf p =
     (if p < length buf then
        (if buf ! p \<noteq> NUL \<and> \<not> strchr WHITESPACE (buf ! p)
         then scan_arg buf (Suc p)
         else Some p)
      else None)"
  by pat_completeness auto
termination
  by (relation "measure (\<lambda>(buf, p). length buf - p)") auto

declare gobble.simps [simp del] scan_arg.simps [simp del]

lemma gobble_post:
  "gobble buf p = Some (buf1, p1) \<Longrightarrow>
     length buf1 = length buf \<and> p \<le> p1 \<and> p1 < length buf1
     \<and> \<not> (buf1 ! p1 \<noteq> NUL \<and> strchr WHITESPACE (buf1 ! p1))"
proof (induction buf p rule: gobble.induct)
  case (1 buf p)
  show ?case
  proof (cases "p < length buf \<and> buf ! p \<noteq> NUL \<and> strchr WHITESPACE (buf ! p)")
    case True
    then have "gobble (buf[p := NUL]) (Suc p) = Some (buf1, p1)"
      using "1.prems" by (subst (asm) gobble.simps) simp
    with True "1.IH" show ?thesis by fastforce
  next
    case False
    then show ?thesis
      using "1.prems" by (subst (asm) gobble.simps) (auto split: if_splits)
  qed
qed

lemma scan_arg_post:
  "scan_arg buf p = Some p2 \<Longrightarrow> p \<le> p2 \<and> p2 < length buf"
proof (induction buf p rule: scan_arg.induct)
  case (1 buf p)
  show ?case
  proof (cases "p < length buf \<and> buf ! p \<noteq> NUL \<and> \<not> strchr WHITESPACE (buf ! p)")
    case True
    then have "scan_arg buf (Suc p) = Some p2"
      using "1.prems" by (subst (asm) scan_arg.simps) simp
    with True "1.IH" show ?thesis by fastforce
  next
    case False
    then show ?thesis
      using "1.prems" by (subst (asm) scan_arg.simps) (auto split: if_splits)
  qed
qed

lemma scan_arg_advances:
  assumes "scan_arg buf p = Some p2" and "buf ! p \<noteq> NUL" and "\<not> strchr WHITESPACE (buf ! p)"
  shows "p < p2"
proof -
  have "p < length buf" using assms(1) scan_arg_post by fastforce
  then have "scan_arg buf (Suc p) = Some p2"
    using assms by (subst (asm) scan_arg.simps) simp
  then show ?thesis using scan_arg_post by fastforce
qed

text \<open>
  What the parsing loop leaves: the buffer, \<open>argc\<close> and the array \<open>argv\<close> of pointers
  (indices into the buffer, \<open>None\<close> for the null pointer), or the overflow.
\<close>

datatype parsed = Parsed string nat "nat option list" | Too_many

text \<open>
  The \<open>while (1)\<close> loop of \<open>runcmd\<close>. \<open>argv\<close> is the array of \<open>MAXARGS\<close> pointers; a
  write outside it is \<open>None\<close>, as a read outside the buffer is. The test \<open>*buf == 0\<close>
  reads the byte that \<open>gobble\<close> read last, inside the buffer.
\<close>

function parse_args :: "string \<Rightarrow> nat \<Rightarrow> nat \<Rightarrow> nat option list \<Rightarrow> parsed option" where
  "parse_args buf p argc argv =
     (case gobble buf p of
        None \<Rightarrow> None
      | Some (buf1, p1) \<Rightarrow>
          if buf1 ! p1 = NUL then Some (Parsed buf1 argc argv)
          else if argc = MAXARGS - 1 then Some Too_many
          else if argc < length argv then
            (case scan_arg buf1 p1 of
               None \<Rightarrow> None
             | Some p2 \<Rightarrow> parse_args buf1 p2 (Suc argc) (argv[argc := Some p1]))
          else None)"
  by pat_completeness auto
termination
proof (relation "measure (\<lambda>(buf, p, argc, argv). length buf - p)", goal_cases)
  case 1
  show ?case by simp
next
  case (2 buf p argc argv x2 buf1 p1 p2)
  then have "gobble buf p = Some (buf1, p1)" by simp
  then have g: "length buf1 = length buf \<and> p \<le> p1 \<and> p1 < length buf1
      \<and> \<not> (buf1 ! p1 \<noteq> NUL \<and> strchr WHITESPACE (buf1 ! p1))"
    by (rule gobble_post)
  have "p1 < p2" using 2 g scan_arg_advances by blast
  moreover have "p2 < length buf1" using 2 scan_arg_post by blast
  ultimately show ?case using g by auto
qed

declare parse_args.simps [simp del]

text \<open>
  The C string that starts at index \<open>p\<close> of the buffer: the bytes up to the next
  terminator.
\<close>

definition cstring :: "string \<Rightarrow> nat \<Rightarrow> string" where
  "cstring buf p = takeWhile (\<lambda>c. c \<noteq> NUL) (drop p buf)"

text \<open>
  The strings that \<open>argv[0]\<close> to \<open>argv[argc - 1]\<close> point to, as a handler reads them;
  \<open>None\<close> if one of the pointers is null or lies outside the array.
\<close>

definition arg_strings :: "string \<Rightarrow> nat \<Rightarrow> nat option list \<Rightarrow> string list option" where
  "arg_strings buf argc argv =
     (if argc \<le> length argv
      then map_option (map (cstring buf)) (those (take argc argv))
      else None)"

text \<open>
  The \<open>for\<close> loop over the table. Modelled from the spec: \<open>strcmp\<close> of lib/string.c is
  not part of the sources; the comparison of names is byte-exact, so
  \<open>strcmp(argv[0], commands[i].name) == 0\<close> holds when the two C strings are equal.
\<close>

fun lookup :: "Command list \<Rightarrow> string \<Rightarrow> handler option" where
  "lookup [] s = None"
| "lookup (c # cs) s = (if s = name c then Some (func c) else lookup cs s)"

text \<open>
  The first part of \<open>runcmd(buf, tf)\<close>, up to \<open>argv[argc] = 0\<close>. \<open>stack\<close> is what the
  memory of the local array \<open>argv\<close> holds when the function is entered: the array is not
  initialised.
\<close>

definition tokenize :: "string \<Rightarrow> nat option list \<Rightarrow> parsed option" where
  "tokenize buf stack =
     (case parse_args buf 0 0 (stack[0 := None]) of
        None \<Rightarrow> None
      | Some Too_many \<Rightarrow> Some Too_many
      | Some (Parsed buf1 argc argv) \<Rightarrow> Some (Parsed buf1 argc (argv[argc := None])))"

text \<open>\<open>runcmd(buf, tf)\<close>: the overflow returns 0 from inside the loop.\<close>

definition runcmd :: "nat \<Rightarrow> kernel \<Rightarrow> string \<Rightarrow> nat option list \<Rightarrow> event list \<times> outcome \<times> kernel" where
  "runcmd fuel k buf stack =
     (case tokenize buf stack of
        None \<Rightarrow> ([], Undefined, k)
      | Some Too_many \<Rightarrow>
          ([Cprintf ''Too many arguments (max %d)\<newline>'' [Num (of_nat MAXARGS)]], Returned 0, k)
      | Some (Parsed buf1 argc argv) \<Rightarrow>
          if argc = 0 then ([], Returned 0, k)
          else
            (case arg_strings buf1 argc argv of
               None \<Rightarrow> ([], Undefined, k)
             | Some args \<Rightarrow>
                 (case lookup commands (args ! 0) of
                    Some h \<Rightarrow>
                      (case call h fuel k args of
                         (evs, r, k1) \<Rightarrow> (Call h args # evs, r, k1))
                  | None \<Rightarrow>
                      ([Cprintf ''Unknown command '%s'\<newline>'' [Txt (args ! 0)]], Returned 0, k))))"

subsection \<open>The tokens of a line, in the spec's words\<close>

text \<open>
  The second definition, for comparison with \<open>tokenize\<close>: the whitespace class is
  exactly space, tab, carriage return and line feed; a line splits at every whitespace
  character into fields, and its tokens are the fields that are not empty.
\<close>

definition is_space :: "char \<Rightarrow> bool" where
  "is_space c = (c = CHR '' '' \<or> c = CHR 0x09 \<or> c = CHR 0x0D \<or> c = CHR 0x0A)"

fun spec_fields :: "string \<Rightarrow> string list" where
  "spec_fields [] = [[]]"
| "spec_fields (c # cs) =
     (if is_space c then [] # spec_fields cs
      else (case spec_fields cs of f # fs \<Rightarrow> (c # f) # fs | [] \<Rightarrow> [[c]]))"

definition spec_tokens :: "string \<Rightarrow> string list" where
  "spec_tokens s = filter (\<lambda>t. t \<noteq> []) (spec_fields s)"

text \<open>The line after the tokenizer: every whitespace character overwritten by a terminator.\<close>

definition terminated :: "string \<Rightarrow> string" where
  "terminated s = map (\<lambda>c. if is_space c then NUL else c) s"

subsection \<open>A simulated kernel\<close>

text \<open>
  A concrete kernel to run the commands on: a page table at \<open>0x3000\<close> that serves the
  first 4 MB and the last 8 MB of the address space, in which only the page \<open>0x2000\<close> is
  mapped (frame \<open>0x5000\<close>, present and writeable); a stack of two frames at \<open>0x7000\<close>
  and \<open>0x7020\<close>, each with its return address and five argument words; the linker
  symbols of the spec's scenario; and a reader of hexadecimal numbers for \<open>strtol\<close>.
\<close>

definition hex_digit :: "char \<Rightarrow> u32 option" where
  "hex_digit c =
     (let n = of_char c :: nat in
      if 48 \<le> n \<and> n \<le> 57 then Some (of_nat (n - 48))
      else if 97 \<le> n \<and> n \<le> 102 then Some (of_nat (n - 87))
      else if 65 \<le> n \<and> n \<le> 70 then Some (of_nat (n - 55))
      else None)"

fun hex_value :: "u32 \<Rightarrow> string \<Rightarrow> u32" where
  "hex_value acc [] = acc"
| "hex_value acc (c # cs) =
     (case hex_digit c of None \<Rightarrow> acc | Some d \<Rightarrow> hex_value (acc * 16 + d) cs)"

definition sim_strtol16 :: "string \<Rightarrow> u32" where
  "sim_strtol16 s =
     (case s of CHR ''0'' # CHR ''x'' # r \<Rightarrow> hex_value 0 r | _ \<Rightarrow> hex_value 0 s)"

definition sim_kernel :: kernel where
  "sim_kernel = \<lparr>
     mem = (\<lambda>a. case map_of
                  [(0x3008, 0x5003),
                   (0x7000, 0x7020), (0x7004, 0xF0100ABC), (0x7008, 0x11), (0x700C, 0x22),
                   (0x7010, 0x33), (0x7014, 0x44), (0x7018, 0x55),
                   (0x7020, 0), (0x7024, 0xF0100DEF), (0x7028, 0xA1), (0x702C, 0xA2),
                   (0x7030, 0xA3), (0x7034, 0xA4), (0x7038, 0xA5)] a
                of Some v \<Rightarrow> v | None \<Rightarrow> 0),
     pgdir_walk = (\<lambda>va. if va < 0x400000 \<or> 0xFF800000 \<le> va
                         then Some (0x3000 + 4 * (drop_bit 12 va AND 0x3FF)) else None),
     read_ebp = 0x7000,
     debuginfo_eip = (\<lambda>eip. if eip = 0xF0100ABC
        then Some \<lparr>eip_file = ''kern/init.c'', eip_line = 24, eip_fn_name = ''i386_init'',
                   eip_fn_namelen = 9, eip_fn_addr = 0xF0100A00\<rparr>
        else None),
     strtol16 = sim_strtol16,
     sym_start = 0x0010000C,
     sym_entry = 0xF0100000,
     sym_etext = 0xF0101A00,
     sym_edata = 0xF0112300,
     sym_end = 0xF0120000,
     KERNBASE = 0xF0000000 \<rparr>"

subsection \<open>Reading a trace\<close>

text \<open>Whether an event is a call of the page-table accessor, or the call of \<open>panic\<close>.\<close>

definition is_walk :: "event \<Rightarrow> bool" where
  "is_walk ev = (case ev of Pgdir_walk a \<Rightarrow> True | _ \<Rightarrow> False)"

definition is_panic :: "event \<Rightarrow> bool" where
  "is_panic ev = (case ev of Panic m \<Rightarrow> True | _ \<Rightarrow> False)"

text \<open>Whether an event is a raw frame line of \<open>backtrace\<close>.\<close>

definition is_raw :: "event \<Rightarrow> bool" where
  "is_raw ev = (case ev of Cprintf f args \<Rightarrow> f = raw_fmt | _ \<Rightarrow> False)"

text \<open>
  A frame-pointer chain from \<open>ebp\<close>: the list of its non-zero frame pointers, the first
  one \<open>ebp\<close>, each next one the word saved at the one before, and zero the word saved at
  the last.
\<close>

fun fp_chain :: "kernel \<Rightarrow> u32 \<Rightarrow> u32 list \<Rightarrow> bool" where
  "fp_chain k ebp [] = (ebp = 0)"
| "fp_chain k ebp (fp # fps) = (ebp = fp \<and> fp \<noteq> 0 \<and> fp_chain k (mem k fp) fps)"

text \<open>What \<open>backtrace\<close> prints for one frame: the raw line, then the symbol line if any.\<close>

definition frame_lines :: "kernel \<Rightarrow> u32 \<Rightarrow> event list" where
  "frame_lines k fp = raw_line k fp # sym_lines k (mem k (fp + 4))"

text \<open>
  The address \<open>begin + j * PGSIZE\<close> in 32-bit arithmetic, and what one run of the body
  of the \<open>showmappings\<close> loop at an address adds to the trace.
\<close>

definition page_addr :: "u32 \<Rightarrow> nat \<Rightarrow> u32" where
  "page_addr begin' j = begin' + of_nat j * PGSIZE"

definition visit :: "kernel \<Rightarrow> u32 \<Rightarrow> event list" where
  "visit k a =
     (case pgdir_walk k a of
        None \<Rightarrow> [Pgdir_walk a, Panic ''pgdir_walk out of memory.\<newline>'']
      | Some entry \<Rightarrow> [Pgdir_walk a, show_entry a (mem k entry)])"

text \<open>The simulated kernel with an accessor that returns an entry for every address.\<close>

definition flat_kernel :: kernel where
  "flat_kernel =
     sim_kernel\<lparr>pgdir_walk := (\<lambda>va. Some (0x3000 + 4 * (drop_bit 12 va AND 0x3FF)))\<rparr>"

text \<open>
  The index of the last page of the range: the largest \<open>j\<close> with
  \<open>begin + j * PGSIZE \<le> end\<close> in unbounded arithmetic, for \<open>begin \<le> end\<close>.
\<close>

definition last_page :: "u32 \<Rightarrow> u32 \<Rightarrow> nat" where
  "last_page begin' end' = (unat end' - unat begin') div unat PGSIZE"

section \<open>Properties\<close>

subsection \<open>The tokenizer\<close>

lemma strchr_WHITESPACE: "strchr WHITESPACE c = is_space c"
  by (auto simp: strchr_def WHITESPACE_def is_space_def)

lemma is_space_not_NUL: "is_space c \<Longrightarrow> c \<noteq> NUL"
  by (auto simp: is_space_def NUL_def)

lemma gobble_run:
  assumes "\<forall>c\<in>set ws. is_space c" and "r \<noteq> []" and "\<not> is_space (hd r)"
  shows "gobble (pre @ ws @ r) (length pre)
    = Some (pre @ replicate (length ws) NUL @ r, length pre + length ws)"
  using assms(1)
proof (induction ws arbitrary: pre)
  case Nil
  have "(pre @ r) ! length pre = hd r" using assms(2) by (simp add: hd_conv_nth nth_append)
  then show ?case
    using assms(2,3) by (subst gobble.simps) (simp add: strchr_WHITESPACE)
next
  case (Cons c ws)
  have c: "is_space c" "c \<noteq> NUL" using Cons.prems is_space_not_NUL by simp_all
  have u: "(pre @ (c # ws) @ r)[length pre := NUL] = (pre @ [NUL]) @ ws @ r"
    by (simp add: list_update_append)
  have "gobble ((pre @ [NUL]) @ ws @ r) (length (pre @ [NUL]))
      = Some ((pre @ [NUL]) @ replicate (length ws) NUL @ r, length (pre @ [NUL]) + length ws)"
    using Cons.prems by (intro Cons.IH) simp
  then show ?case
    using c by (subst gobble.simps) (simp add: strchr_WHITESPACE u [simplified] replicate_app_Cons_same)
qed

lemma scan_arg_run:
  assumes "\<forall>c\<in>set tok. c \<noteq> NUL \<and> \<not> is_space c" and "r \<noteq> []"
    and "hd r = NUL \<or> is_space (hd r)"
  shows "scan_arg (pre @ tok @ r) (length pre) = Some (length pre + length tok)"
  using assms(1)
proof (induction tok arbitrary: pre)
  case Nil
  have "(pre @ r) ! length pre = hd r" using assms(2) by (simp add: hd_conv_nth nth_append)
  then show ?case
    using assms(2,3) by (subst scan_arg.simps) (auto simp: strchr_WHITESPACE)
next
  case (Cons c tok)
  have "scan_arg ((pre @ [c]) @ tok @ r) (length (pre @ [c]))
      = Some (length (pre @ [c]) + length tok)"
    using Cons.prems by (intro Cons.IH) simp
  then show ?case
    using Cons.prems by (subst scan_arg.simps) (simp add: strchr_WHITESPACE)
qed

lemma parse_args_end:
  assumes "\<forall>c\<in>set ws. is_space c"
  shows "parse_args (pre @ ws @ NUL # rest) (length pre) argc argv
    = Some (Parsed (pre @ replicate (length ws) NUL @ NUL # rest) argc argv)"
proof -
  have "gobble (pre @ ws @ NUL # rest) (length pre)
      = Some (pre @ replicate (length ws) NUL @ NUL # rest, length pre + length ws)"
    using assms is_space_not_NUL by (intro gobble_run) auto
  then show ?thesis
    by (subst parse_args.simps) (simp add: nth_append)
qed

lemma parse_args_token:
  assumes "\<forall>c\<in>set ws. is_space c" and "tok \<noteq> []"
    and "\<forall>c\<in>set tok. c \<noteq> NUL \<and> \<not> is_space c"
    and "r \<noteq> []" and "hd r = NUL \<or> is_space (hd r)"
  shows "parse_args (pre @ ws @ tok @ r) (length pre) argc argv =
    (if argc = MAXARGS - 1 then Some Too_many
     else if argc < length argv then
       parse_args ((pre @ replicate (length ws) NUL @ tok) @ r)
         (length (pre @ replicate (length ws) NUL @ tok)) (Suc argc)
         (argv[argc := Some (length pre + length ws)])
     else None)"
proof -
  have t: "hd tok \<noteq> NUL" "\<not> is_space (hd tok)" using assms(2,3) by (cases tok; simp)+
  have g: "gobble (pre @ ws @ tok @ r) (length pre)
      = Some (pre @ replicate (length ws) NUL @ tok @ r, length pre + length ws)"
    using assms(1,2) t gobble_run [of ws "tok @ r" pre] by simp
  have n: "(pre @ replicate (length ws) NUL @ tok @ r) ! (length pre + length ws) = hd tok"
    using assms(2) by (simp add: nth_append hd_conv_nth)
  have "scan_arg ((pre @ replicate (length ws) NUL) @ tok @ r)
        (length (pre @ replicate (length ws) NUL))
      = Some (length (pre @ replicate (length ws) NUL) + length tok)"
    using assms(3,4,5) by (rule scan_arg_run)
  then have s: "scan_arg (pre @ replicate (length ws) NUL @ tok @ r) (length pre + length ws)
      = Some (length pre + length ws + length tok)"
    by simp
  show ?thesis
    using n t s by (subst parse_args.simps) (simp add: g add.assoc)
qed


lemma spec_fields_not_Nil [simp]: "spec_fields s \<noteq> []"
  by (cases s) (simp_all split: list.split)

lemma spec_tokens_spaces:
  "\<forall>c\<in>set ws. is_space c \<Longrightarrow> spec_tokens (ws @ s) = spec_tokens s"
  by (induction ws) (simp_all add: spec_tokens_def)

lemma spec_fields_token:
  "\<forall>c\<in>set tok. \<not> is_space c \<Longrightarrow>
     spec_fields (tok @ r) = (tok @ hd (spec_fields r)) # tl (spec_fields r)"
proof (induction tok)
  case Nil
  then show ?case by simp
next
  case (Cons c tok)
  then show ?case by (simp split: list.split)
qed

lemma spec_tokens_token:
  assumes "tok \<noteq> []" and "\<forall>c\<in>set tok. \<not> is_space c" and "r = [] \<or> is_space (hd r)"
  shows "spec_tokens (tok @ r) = tok # spec_tokens r"
proof (cases r)
  case Nil
  then show ?thesis
    using assms(1) spec_fields_token [OF assms(2), of "[]"] by (simp add: spec_tokens_def)
next
  case (Cons c cs)
  then have "is_space c" using assms(3) by simp
  then show ?thesis
    using assms(1) Cons spec_fields_token [OF assms(2), of r] by (simp add: spec_tokens_def)
qed

text \<open>A line is a run of whitespace, then nothing more or a token and the rest.\<close>

lemma line_cases:
  obtains (blank) "\<forall>c\<in>set s. is_space c"
  | (token) ws tok r where "s = ws @ tok @ r" "\<forall>c\<in>set ws. is_space c" "tok \<noteq> []"
      "\<forall>c\<in>set tok. \<not> is_space c" "r = [] \<or> is_space (hd r)"
proof (cases "dropWhile is_space s = []")
  case True
  then have "\<forall>c\<in>set s. is_space c" by (simp add: dropWhile_eq_Nil_conv)
  then show ?thesis by (rule blank)
next
  case False
  let ?ws = "takeWhile is_space s" and ?rem = "dropWhile is_space s"
  let ?tok = "takeWhile (\<lambda>c. \<not> is_space c) ?rem" and ?r = "dropWhile (\<lambda>c. \<not> is_space c) ?rem"
  have "s = ?ws @ ?tok @ ?r" by simp
  moreover have "\<forall>c\<in>set ?ws. is_space c" by (auto dest: set_takeWhileD)
  moreover have "\<not> is_space (hd ?rem)" using False by (rule hd_dropWhile)
  then have "?tok \<noteq> []" using False by (simp add: takeWhile_eq_Nil_iff)
  moreover have "\<forall>c\<in>set ?tok. \<not> is_space c" by (auto dest: set_takeWhileD)
  moreover have "?r = [] \<or> is_space (hd ?r)"
    using hd_dropWhile [of "\<lambda>c. \<not> is_space c" ?rem] by auto
  ultimately show ?thesis by (rule token)
qed

lemma terminated_spaces:
  "\<forall>c\<in>set ws. is_space c \<Longrightarrow> terminated ws = replicate (length ws) NUL"
  by (induction ws) (simp_all add: terminated_def)

lemma terminated_token:
  "\<forall>c\<in>set tok. \<not> is_space c \<Longrightarrow> terminated tok = tok"
  by (induction tok) (simp_all add: terminated_def)

lemma terminated_append: "terminated (xs @ ys) = terminated xs @ terminated ys"
  by (simp add: terminated_def)

lemma cstring_token:
  assumes "NUL \<notin> set tok" and "r \<noteq> []" and "hd r = NUL" and "length pre = p"
  shows "cstring (pre @ tok @ r) p = tok"
proof -
  have "takeWhile (\<lambda>c. c \<noteq> NUL) (tok @ r) = tok"
    using assms(1,2,3) by (cases r) (auto simp: takeWhile_append2 takeWhile_tail)
  then show ?thesis using assms(4) by (simp add: cstring_def)
qed

lemma cstring_shift:
  "length pre \<le> p \<Longrightarrow> cstring (pre @ xs) p = cstring xs (p - length pre)"
  by (simp add: cstring_def)


lemma parse_args_token_line:
  assumes "\<forall>c\<in>set ws. is_space c" and "tok \<noteq> []" and "\<forall>c\<in>set tok. \<not> is_space c"
    and "NUL \<notin> set tok" and "r = [] \<or> is_space (hd r)" and "length argv = MAXARGS"
  shows "parse_args (pre @ (ws @ tok @ r) @ NUL # rest) (length pre) argc argv =
    (if argc = 15 then Some Too_many
     else if argc < 16 then
       parse_args ((pre @ replicate (length ws) NUL @ tok) @ r @ NUL # rest)
         (length (pre @ replicate (length ws) NUL @ tok)) (Suc argc)
         (argv[argc := Some (length pre + length ws)])
     else None)"
proof -
  have t: "\<forall>c\<in>set tok. c \<noteq> NUL \<and> \<not> is_space c" using assms(3,4) by auto
  have n: "r @ NUL # rest \<noteq> []" by simp
  have h: "hd (r @ NUL # rest) = NUL \<or> is_space (hd (r @ NUL # rest))"
    using assms(5) by (cases r) simp_all
  show ?thesis
    using parse_args_token [OF assms(1,2) t n h, of pre argc argv] assms(6)
    by (simp add: MAXARGS_def)
qed

lemma spec_tokens_blank: "\<forall>c\<in>set s. is_space c \<Longrightarrow> spec_tokens s = []"
  using spec_tokens_spaces [of s "[]"] by (simp add: spec_tokens_def)

text \<open>
  The parsing loop on a terminated line without overflow: the tokens of the line are
  found in order, in place.
\<close>

lemma parse_args_tokens:
  assumes "NUL \<notin> set s" and "length argv = MAXARGS"
    and "argc + length (spec_tokens s) \<le> 15"
  shows "\<exists>argv'. parse_args (pre @ s @ NUL # rest) (length pre) argc argv
        = Some (Parsed (pre @ terminated s @ NUL # rest) (argc + length (spec_tokens s)) argv')
     \<and> length argv' = MAXARGS \<and> take argc argv' = take argc argv
     \<and> (\<forall>i<length (spec_tokens s). \<exists>p. argv' ! (argc + i) = Some p
           \<and> length pre \<le> p \<and> p < length pre + length s
           \<and> cstring (pre @ terminated s @ NUL # rest) p = spec_tokens s ! i)"
  using assms
proof (induction "length s" arbitrary: s pre argc argv rule: less_induct)
  case less
  show ?case
  proof (cases s rule: line_cases)
    case blank
    then show ?thesis
      using parse_args_end [OF blank, of pre rest argc argv] less.prems(2)
      by (simp add: spec_tokens_blank terminated_spaces)
  next
    case (token ws tok r)
    let ?p1 = "length pre + length ws"
    let ?pre = "pre @ replicate (length ws) NUL @ tok"
    let ?argv = "argv[argc := Some ?p1]"
    let ?final = "pre @ terminated s @ NUL # rest"
    have toks: "spec_tokens s = tok # spec_tokens r"
      using token by (simp add: spec_tokens_spaces spec_tokens_token)
    have nul: "NUL \<notin> set tok" "NUL \<notin> set r" using less.prems(1) token(1) by simp_all
    have argc: "argc < 15" "argc < length argv"
      using less.prems(2,3) toks by (simp_all add: MAXARGS_def)
    have final: "?final = ?pre @ terminated r @ NUL # rest"
      using token by (simp add: terminated_append terminated_spaces terminated_token)
    have step: "parse_args (pre @ s @ NUL # rest) (length pre) argc argv
        = parse_args (?pre @ r @ NUL # rest) (length ?pre) (Suc argc) ?argv"
      unfolding token(1)
      using parse_args_token_line [OF token(2,3,4) nul(1) token(5) less.prems(2), of pre rest argc]
        argc(1)
      by simp
    have "length r < length s" using token(1,3) by simp
    moreover have "length ?argv = MAXARGS" using less.prems(2) by simp
    moreover have "Suc argc + length (spec_tokens r) \<le> 15" using less.prems(3) toks by simp
    ultimately obtain argv' where ih:
      "parse_args (?pre @ r @ NUL # rest) (length ?pre) (Suc argc) ?argv
        = Some (Parsed (?pre @ terminated r @ NUL # rest)
                  (Suc argc + length (spec_tokens r)) argv')"
      "length argv' = MAXARGS" "take (Suc argc) argv' = take (Suc argc) ?argv"
      "\<forall>i<length (spec_tokens r). \<exists>p. argv' ! (Suc argc + i) = Some p
           \<and> length ?pre \<le> p \<and> p < length ?pre + length r
           \<and> cstring (?pre @ terminated r @ NUL # rest) p = spec_tokens r ! i"
      using less.hyps [of r ?argv "Suc argc" ?pre] nul(2) by blast
    have res: "parse_args (pre @ s @ NUL # rest) (length pre) argc argv
        = Some (Parsed ?final (argc + length (spec_tokens s)) argv')"
      using step ih(1) final toks by simp
    have "take argc (take (Suc argc) argv') = take argc (take (Suc argc) ?argv)"
      using ih(3) by simp
    then have keep: "take argc argv' = take argc argv" by (simp add: min_def)
    have "take (Suc argc) argv' ! argc = take (Suc argc) ?argv ! argc"
      using ih(3) by simp
    then have first: "argv' ! argc = Some ?p1" using argc(2) by simp
    have "hd (terminated r @ NUL # rest) = NUL"
      using token(5) by (cases r) (simp_all add: terminated_def)
    then have "cstring ((pre @ replicate (length ws) NUL) @ tok @ terminated r @ NUL # rest) ?p1 = tok"
      using nul(1) by (intro cstring_token) simp_all
    then have c0: "cstring ?final ?p1 = tok" using final by simp
    have each: "\<exists>p. argv' ! (argc + i) = Some p \<and> length pre \<le> p \<and> p < length pre + length s
           \<and> cstring ?final p = spec_tokens s ! i"
      if i: "i < length (spec_tokens s)" for i
    proof (cases i)
      case 0
      then show ?thesis using first c0 toks token(1,3) by simp
    next
      case (Suc i')
      then have "i' < length (spec_tokens r)" using i toks by simp
      then obtain p where p: "argv' ! (Suc argc + i') = Some p" "length ?pre \<le> p"
          "p < length ?pre + length r"
          "cstring (?pre @ terminated r @ NUL # rest) p = spec_tokens r ! i'"
        using ih(4) by blast
      then show ?thesis
        using Suc toks final token(1) by (intro exI [of _ p]) simp
    qed
    show ?thesis using res ih(2) keep each by blast
  qed
qed

lemma parse_args_overflow:
  assumes "NUL \<notin> set s" and "length argv = MAXARGS"
    and "argc \<le> 15" and "15 < argc + length (spec_tokens s)"
  shows "parse_args (pre @ s @ NUL # rest) (length pre) argc argv = Some Too_many"
  using assms
proof (induction "length s" arbitrary: s pre argc argv rule: less_induct)
  case less
  show ?case
  proof (cases s rule: line_cases)
    case blank
    then show ?thesis using less.prems(3,4) by (simp add: spec_tokens_blank)
  next
    case (token ws tok r)
    let ?pre = "pre @ replicate (length ws) NUL @ tok"
    let ?argv = "argv[argc := Some (length pre + length ws)]"
    have toks: "spec_tokens s = tok # spec_tokens r"
      using token by (simp add: spec_tokens_spaces spec_tokens_token)
    have nul: "NUL \<notin> set tok" "NUL \<notin> set r" using less.prems(1) token(1) by simp_all
    have step: "parse_args (pre @ s @ NUL # rest) (length pre) argc argv =
        (if argc = 15 then Some Too_many
         else parse_args (?pre @ r @ NUL # rest) (length ?pre) (Suc argc) ?argv)"
      unfolding token(1)
      using parse_args_token_line [OF token(2,3,4) nul(1) token(5) less.prems(2), of pre rest argc]
        less.prems(3)
      by simp
    show ?thesis
    proof (cases "argc = 15")
      case True
      then show ?thesis using step by simp
    next
      case False
      have "length r < length s" using token(1,3) by simp
      moreover have "length ?argv = MAXARGS" using less.prems(2) by simp
      moreover have "Suc argc \<le> 15" using False less.prems(3) by simp
      moreover have "15 < Suc argc + length (spec_tokens r)" using less.prems(4) toks by simp
      ultimately have "parse_args (?pre @ r @ NUL # rest) (length ?pre) (Suc argc) ?argv
          = Some Too_many"
        using less.hyps [of r ?argv "Suc argc" ?pre] nul(2) by blast
      then show ?thesis using step False by simp
    qed
  qed
qed


lemma those_pointers:
  "length xs = length ys \<Longrightarrow> \<forall>i<length xs. \<exists>p. xs ! i = Some p \<and> f p = ys ! i \<Longrightarrow>
     map_option (map f) (those xs) = Some ys"
proof (induction xs ys rule: list_induct2)
  case Nil
  then show ?case by simp
next
  case (Cons x xs y ys)
  from Cons.prems obtain p where p: "x = Some p" "f p = y" by fastforce
  have "\<forall>i<length xs. \<exists>p. xs ! i = Some p \<and> f p = ys ! i"
  proof (intro allI impI)
    fix i assume "i < length xs"
    then show "\<exists>p. xs ! i = Some p \<and> f p = ys ! i"
      using Cons.prems [rule_format, of "Suc i"] by simp
  qed
  then have "map_option (map f) (those xs) = Some ys" by (rule Cons.IH)
  then show ?case using p by (auto simp: map_option_case split: option.splits)
qed

lemma tokenize_tokens:
  assumes "NUL \<notin> set line" and "length stack = MAXARGS"
    and "length (spec_tokens line) \<le> 15"
  shows "\<exists>argv. tokenize (line @ NUL # rest) stack
        = Some (Parsed (terminated line @ NUL # rest) (length (spec_tokens line)) argv)
     \<and> length argv = MAXARGS
     \<and> (\<forall>i<length (spec_tokens line). \<exists>p. argv ! i = Some p \<and> p < length line
           \<and> cstring (terminated line @ NUL # rest) p = spec_tokens line ! i)
     \<and> argv ! length (spec_tokens line) = None
     \<and> arg_strings (terminated line @ NUL # rest) (length (spec_tokens line)) argv
         = Some (spec_tokens line)"
proof -
  let ?k = "length (spec_tokens line)" and ?buf = "terminated line @ NUL # rest"
  have "length (stack[0 := None]) = MAXARGS" using assms(2) by simp
  then obtain argv where a:
    "parse_args (line @ NUL # rest) 0 0 (stack[0 := None]) = Some (Parsed ?buf ?k argv)"
    "length argv = MAXARGS"
    "\<forall>i<?k. \<exists>p. argv ! i = Some p \<and> p < length line \<and> cstring ?buf p = spec_tokens line ! i"
    using parse_args_tokens [OF assms(1), of "stack[0 := None]" 0 "[]" rest] assms(3)
    by auto
  let ?argv = "argv[?k := None]"
  have k: "?k < length argv" using a(2) assms(3) by (simp add: MAXARGS_def)
  have t: "tokenize (line @ NUL # rest) stack = Some (Parsed ?buf ?k ?argv)"
    using a(1) by (simp add: tokenize_def)
  have each: "\<forall>i<?k. \<exists>p. ?argv ! i = Some p \<and> p < length line
      \<and> cstring ?buf p = spec_tokens line ! i"
    using a(3) by simp
  have "\<forall>i<length (take ?k ?argv). \<exists>p. take ?k ?argv ! i = Some p
      \<and> cstring ?buf p = spec_tokens line ! i"
  proof (intro allI impI)
    fix i assume "i < length (take ?k ?argv)"
    then have i: "i < ?k" by simp
    then obtain p where "?argv ! i = Some p" "cstring ?buf p = spec_tokens line ! i"
      using each by blast
    then show "\<exists>p. take ?k ?argv ! i = Some p \<and> cstring ?buf p = spec_tokens line ! i"
      using i by simp
  qed
  moreover have "length (take ?k ?argv) = length (spec_tokens line)" using k by simp
  ultimately have "map_option (map (cstring ?buf)) (those (take ?k ?argv))
      = Some (spec_tokens line)"
    by (intro those_pointers)
  then have strs: "arg_strings ?buf ?k ?argv = Some (spec_tokens line)"
    using k by (simp add: arg_strings_def)
  show ?thesis
    using t a(2) each k strs by (intro exI [of _ ?argv]) simp
qed

lemma runcmd_dispatch:
  assumes "NUL \<notin> set line" and "length stack = MAXARGS"
    and "spec_tokens line \<noteq> []" and "length (spec_tokens line) \<le> 15"
  shows "runcmd fuel k (line @ NUL # rest) stack =
    (case lookup commands (hd (spec_tokens line)) of
       Some h \<Rightarrow>
         (case call h fuel k (spec_tokens line) of
            (evs, r, k1) \<Rightarrow> (Call h (spec_tokens line) # evs, r, k1))
     | None \<Rightarrow>
         ([Cprintf ''Unknown command '%s'\<newline>'' [Txt (hd (spec_tokens line))]],
          Returned 0, k))"
proof -
  have h: "hd (spec_tokens line) = spec_tokens line ! 0"
    using assms(3) by (simp add: hd_conv_nth)
  show ?thesis
    unfolding h using tokenize_tokens [OF assms(1,2,4), of rest] assms(3)
    by (auto simp: runcmd_def)
qed

text \<open>
  C3. For a line without a terminator inside, followed by its terminator, with \<open>k\<close>
  tokens between whitespace (space, tab, carriage return, line feed): if \<open>k \<le> 15\<close> the
  tokenizer gives \<open>argc = k\<close>, the whitespace of the line overwritten by terminators in
  place, \<open>argv[0]\<close> to \<open>argv[k - 1]\<close> pointing into the line at the tokens in order, and
  \<open>argv[k]\<close> null; a line of whitespace only has no token and \<open>runcmd\<close> returns 0 with
  no output and no handler called; with \<open>1 \<le> k \<le> 15\<close> the command is looked up by
  the first token; if \<open>k \<ge> 16\<close> \<open>runcmd\<close> prints the overflow diagnostic and returns 0,
  calling no handler.
\<close>

theorem tokenizer_contract:
  assumes "NUL \<notin> set line" and "length stack = MAXARGS"
  shows "(length (spec_tokens line) \<le> 15 \<longrightarrow>
      (\<exists>argv. tokenize (line @ NUL # rest) stack
           = Some (Parsed (terminated line @ NUL # rest) (length (spec_tokens line)) argv)
         \<and> length argv = MAXARGS
         \<and> (\<forall>i<length (spec_tokens line). \<exists>p. argv ! i = Some p \<and> p < length line
               \<and> cstring (terminated line @ NUL # rest) p = spec_tokens line ! i)
         \<and> argv ! length (spec_tokens line) = None
         \<and> arg_strings (terminated line @ NUL # rest) (length (spec_tokens line)) argv
             = Some (spec_tokens line)))
    \<and> ((\<forall>c\<in>set line. is_space c) \<longrightarrow>
          spec_tokens line = [] \<and> runcmd fuel k (line @ NUL # rest) stack = ([], Returned 0, k))
    \<and> (spec_tokens line \<noteq> [] \<and> length (spec_tokens line) \<le> 15 \<longrightarrow>
          runcmd fuel k (line @ NUL # rest) stack =
            (case lookup commands (hd (spec_tokens line)) of
               Some h \<Rightarrow>
                 (case call h fuel k (spec_tokens line) of
                    (evs, r, k1) \<Rightarrow> (Call h (spec_tokens line) # evs, r, k1))
             | None \<Rightarrow>
                 ([Cprintf ''Unknown command '%s'\<newline>'' [Txt (hd (spec_tokens line))]],
                  Returned 0, k)))
    \<and> (16 \<le> length (spec_tokens line) \<longrightarrow>
          tokenize (line @ NUL # rest) stack = Some Too_many
          \<and> runcmd fuel k (line @ NUL # rest) stack =
              ([Cprintf ''Too many arguments (max %d)\<newline>'' [Num 16]], Returned 0, k))"
proof (intro conjI impI)
  assume "length (spec_tokens line) \<le> 15"
  then show "\<exists>argv. tokenize (line @ NUL # rest) stack
           = Some (Parsed (terminated line @ NUL # rest) (length (spec_tokens line)) argv)
         \<and> length argv = MAXARGS
         \<and> (\<forall>i<length (spec_tokens line). \<exists>p. argv ! i = Some p \<and> p < length line
               \<and> cstring (terminated line @ NUL # rest) p = spec_tokens line ! i)
         \<and> argv ! length (spec_tokens line) = None
         \<and> arg_strings (terminated line @ NUL # rest) (length (spec_tokens line)) argv
             = Some (spec_tokens line)"
    by (rule tokenize_tokens [OF assms])
next
  assume "\<forall>c\<in>set line. is_space c"
  then show b: "spec_tokens line = []" by (rule spec_tokens_blank)
  then show "runcmd fuel k (line @ NUL # rest) stack = ([], Returned 0, k)"
    using tokenize_tokens [OF assms, of rest] by (auto simp: runcmd_def)
next
  assume "spec_tokens line \<noteq> [] \<and> length (spec_tokens line) \<le> 15"
  then show "runcmd fuel k (line @ NUL # rest) stack =
            (case lookup commands (hd (spec_tokens line)) of
               Some h \<Rightarrow>
                 (case call h fuel k (spec_tokens line) of
                    (evs, r, k1) \<Rightarrow> (Call h (spec_tokens line) # evs, r, k1))
             | None \<Rightarrow>
                 ([Cprintf ''Unknown command '%s'\<newline>'' [Txt (hd (spec_tokens line))]],
                  Returned 0, k))"
    using runcmd_dispatch [OF assms] by simp
next
  assume "16 \<le> length (spec_tokens line)"
  then have "parse_args (line @ NUL # rest) 0 0 (stack[0 := None]) = Some Too_many"
    using parse_args_overflow [OF assms(1), of "stack[0 := None]" 0 "[]" rest] assms(2)
    by simp
  then show t: "tokenize (line @ NUL # rest) stack = Some Too_many"
    by (simp add: tokenize_def)
  show "runcmd fuel k (line @ NUL # rest) stack =
      ([Cprintf ''Too many arguments (max %d)\<newline>'' [Num 16]], Returned 0, k)"
    using t by (simp add: runcmd_def MAXARGS_def)
qed


theorem tokenizer_contract_witness:
  "NUL \<notin> set ([CHR '' '', CHR '' '', CHR ''a'', CHR '' '', CHR '' '', CHR ''b'', CHR 0x09,
                  CHR ''c'', CHR 0x0A])
   \<and> length (replicate 16 (Some 7) :: nat option list) = MAXARGS
   \<and> spec_tokens [CHR '' '', CHR '' '', CHR ''a'', CHR '' '', CHR '' '', CHR ''b'', CHR 0x09,
                   CHR ''c'', CHR 0x0A] = [''a'', ''b'', ''c'']
   \<and> tokenize ([CHR '' '', CHR '' '', CHR ''a'', CHR '' '', CHR '' '', CHR ''b'', CHR 0x09,
                 CHR ''c'', CHR 0x0A] @ [NUL]) (replicate 16 (Some 7))
       = Some (Parsed [NUL, NUL, CHR ''a'', NUL, NUL, CHR ''b'', NUL, CHR ''c'', NUL, NUL] 3
           ([Some 2, Some 5, Some 7, None] @ replicate 12 (Some 7)))
   \<and> runcmd 0 sim_kernel ([CHR '' '', CHR '' '', CHR ''a'', CHR '' '', CHR '' '', CHR ''b'',
         CHR 0x09, CHR ''c'', CHR 0x0A] @ [NUL]) (replicate 16 (Some 7))
       = ([Cprintf ''Unknown command '%s'\<newline>'' [Txt ''a'']], Returned 0, sim_kernel)
   \<and> runcmd 0 sim_kernel ([CHR '' '', CHR 0x09, CHR 0x0A] @ [NUL]) (replicate 16 (Some 7))
       = ([], Returned 0, sim_kernel)
   \<and> length (spec_tokens ''a b c d e f g h i j k l m n o p'') = 16
   \<and> runcmd 0 sim_kernel (''a b c d e f g h i j k l m n o p'' @ [NUL]) (replicate 16 (Some 7))
       = ([Cprintf ''Too many arguments (max %d)\<newline>'' [Num 16]], Returned 0, sim_kernel)
   \<and> length (spec_tokens ''a b c d e f g h i j k l m n o'') = 15
   \<and> (\<exists>argv. tokenize (''a b c d e f g h i j k l m n o'' @ [NUL]) (replicate 16 (Some 7))
         = Some (Parsed (terminated ''a b c d e f g h i j k l m n o'' @ [NUL]) 15 argv)
         \<and> argv ! 15 = None)"
proof -
  let ?l1 = "[CHR '' '', CHR '' '', CHR ''a'', CHR '' '', CHR '' '', CHR ''b'', CHR 0x09,
              CHR ''c'', CHR 0x0A]"
  let ?l2 = "[CHR '' '', CHR 0x09, CHR 0x0A]"
  let ?l3 = "''a b c d e f g h i j k l m n o p''"
  let ?l4 = "''a b c d e f g h i j k l m n o''"
  let ?stack = "replicate 16 (Some 7) :: nat option list"
  have n: "NUL \<notin> set ?l1" "NUL \<notin> set ?l2" "NUL \<notin> set ?l3" "NUL \<notin> set ?l4"
    by (simp_all add: NUL_def)
  have st: "length ?stack = MAXARGS" by (simp add: MAXARGS_def)
  have t1: "spec_tokens ?l1 = [''a'', ''b'', ''c'']" by code_simp
  have t3: "length (spec_tokens ?l3) = 16" by code_simp
  have t4: "length (spec_tokens ?l4) = 15" by code_simp
  have sp: "\<forall>c\<in>set ?l2. is_space c" by (simp add: is_space_def)
  have tk: "tokenize (?l1 @ [NUL]) ?stack
       = Some (Parsed [NUL, NUL, CHR ''a'', NUL, NUL, CHR ''b'', NUL, CHR ''c'', NUL, NUL] 3
           ([Some 2, Some 5, Some 7, None] @ replicate 12 (Some 7)))"
    by code_simp
  have lk: "lookup commands ''a'' = None" by (simp add: commands_def)
  have r1: "runcmd 0 sim_kernel (?l1 @ [NUL]) ?stack
       = ([Cprintf ''Unknown command '%s'\<newline>'' [Txt ''a'']], Returned 0, sim_kernel)"
    using tokenizer_contract [OF n(1) st, of "[]" 0 sim_kernel] t1 lk by simp
  have r2: "runcmd 0 sim_kernel (?l2 @ [NUL]) ?stack = ([], Returned 0, sim_kernel)"
    using tokenizer_contract [OF n(2) st, of "[]" 0 sim_kernel] sp by blast
  have r3: "runcmd 0 sim_kernel (?l3 @ [NUL]) ?stack
       = ([Cprintf ''Too many arguments (max %d)\<newline>'' [Num 16]], Returned 0, sim_kernel)"
    using tokenizer_contract [OF n(3) st, of "[]" 0 sim_kernel] t3 by simp
  have r4: "\<exists>argv. tokenize (?l4 @ [NUL]) ?stack
         = Some (Parsed (terminated ?l4 @ [NUL]) 15 argv) \<and> argv ! 15 = None"
    using tokenizer_contract [OF n(4) st, of "[]" 0 sim_kernel] t4 by auto
  show ?thesis using n(1) st t1 tk r1 r2 t3 r3 t4 r4 by (intro conjI)
qed

subsection \<open>The name of the permission editor in the table\<close>

text \<open>
  C5 (the code does otherwise). The table registers the permission editor under the
  name \<open>setpremission\<close>: a line whose first token is \<open>setpermission\<close> finds no entry,
  \<open>runcmd\<close> reports an unknown command and calls no handler. The misspelt name reaches
  the handler.
\<close>

theorem setpermission_unknown_command:
  "lookup commands ''setpermission'' = None
   \<and> lookup commands ''setpremission'' = Some Mon_setpermission
   \<and> runcmd fuel k (''setpermission 0x2000 s u'' @ [NUL]) (replicate 16 None)
       = ([Cprintf ''Unknown command '%s'\<newline>'' [Txt ''setpermission'']], Returned 0, k)
   \<and> fst (runcmd fuel k (''setpremission 0x2000 s u'' @ [NUL]) (replicate 16 None))
       = Call Mon_setpermission [''setpremission'', ''0x2000'', ''s'', ''u'']
           # fst (mon_setpermission k [''setpremission'', ''0x2000'', ''s'', ''u''])"
proof -
  let ?stack = "replicate 16 None :: nat option list"
  have st: "length ?stack = MAXARGS" by (simp add: MAXARGS_def)
  have n: "NUL \<notin> set ''setpermission 0x2000 s u''" "NUL \<notin> set ''setpremission 0x2000 s u''"
    by (simp_all add: NUL_def)
  have t1: "spec_tokens ''setpermission 0x2000 s u'' = [''setpermission'', ''0x2000'', ''s'', ''u'']"
    by code_simp
  have t2: "spec_tokens ''setpremission 0x2000 s u'' = [''setpremission'', ''0x2000'', ''s'', ''u'']"
    by code_simp
  have l1: "lookup commands ''setpermission'' = None" by (simp add: commands_def)
  have l2: "lookup commands ''setpremission'' = Some Mon_setpermission"
    by (simp add: commands_def)
  have r1: "runcmd fuel k (''setpermission 0x2000 s u'' @ [NUL]) ?stack
       = ([Cprintf ''Unknown command '%s'\<newline>'' [Txt ''setpermission'']], Returned 0, k)"
    using runcmd_dispatch [where rest = "[]", OF n(1) st] t1 l1 by simp
  have r2: "fst (runcmd fuel k (''setpremission 0x2000 s u'' @ [NUL]) ?stack)
       = Call Mon_setpermission [''setpremission'', ''0x2000'', ''s'', ''u'']
           # fst (mon_setpermission k [''setpremission'', ''0x2000'', ''s'', ''u''])"
    using runcmd_dispatch [where rest = "[]", OF n(2) st] t2 l2 by (simp add: split_beta)
  show ?thesis using l1 l2 r1 r2 by (intro conjI)
qed

subsection \<open>kerninfo\<close>

lemma sint_small:
  fixes y :: u32
  assumes "unat y < 2 ^ 31"
  shows "sint y = int (unat y)"
proof -
  have "int (unat y) < int (2 ^ 31)" using assms by (simp only: of_nat_less_iff)
  then have u: "uint y < 2 ^ 31" by simp
  have l: "- (2 ^ 31) \<le> uint y" by (rule order_trans [of _ 0]) simp_all
  have "sint y = signed_take_bit 31 (uint y)" by (simp add: sint_uint)
  also have "\<dots> = uint y"
    using l u by (rule signed_take_bit_int_eq_self)
  finally show ?thesis by simp
qed

lemma roundup_kb:
  fixes d :: u32
  assumes "unat d + 1023 < 2 ^ 31"
  shows "unat (int_div (ROUNDUP d 1024) 1024) = (unat d + 1023) div 1024"
proof -
  define x where "x = d + 1023"
  have rx: "ROUNDUP d 1024 = x - x mod 1024" by (simp add: ROUNDUP_def x_def add.commute)
  have a: "unat x = unat d + 1023"
    using assms by (simp add: unat_word_ariths x_def) 
  have m: "unat (x mod 1024) = (unat d + 1023) mod 1024"
    by (simp add: unat_mod a)
  have le: "x mod 1024 \<le> x"
    by (simp add: word_le_nat_alt unat_mod)
  have r: "unat (ROUNDUP d 1024) = (unat d + 1023) - (unat d + 1023) mod 1024"
    unfolding rx using unat_sub [OF le] a m by simp
  then have r': "unat (ROUNDUP d 1024) = ((unat d + 1023) div 1024) * 1024"
    by (simp add: minus_mod_eq_div_mult)
  have lt: "unat (ROUNDUP d 1024) < 2 ^ 31" using r assms by simp
  have s: "sint (ROUNDUP d 1024) = int (((unat d + 1023) div 1024) * 1024)"
    by (simp only: sint_small [OF lt] r')
  have "sint (ROUNDUP d 1024) sdiv sint (1024 :: u32) = int ((unat d + 1023) div 1024)"
    unfolding s by (simp add: signed_divide_int_def sgn_if)
  then have "int_div (ROUNDUP d 1024) 1024 = word_of_nat ((unat d + 1023) div 1024)"
    by (simp add: int_div_def)
  then show ?thesis using assms by (simp add: unat_of_nat)
qed

text \<open>
  C8. The last line of \<open>kerninfo\<close> reports \<open>end - entry\<close> rounded up to whole
  kilobytes, in KB (for an image that ends after its entry and is smaller than 2 GB);
  the line of \<open>entry\<close> reports \<open>entry - KERNBASE\<close> as the physical address. For
  \<open>entry = 0xF0100000\<close>, \<open>end = 0xF0120000\<close> and \<open>KERNBASE = 0xF0000000\<close> these are
  128 KB and \<open>0x00100000\<close>.
\<close>

theorem kerninfo_footprint:
  assumes "sym_entry k \<le> sym_end k"
    and "unat (sym_end k) - unat (sym_entry k) + 1023 < 2 ^ 31"
  shows "snd (mon_kerninfo k argv) = Returned 0
    \<and> last (fst (mon_kerninfo k argv))
        = Cprintf ''Kernel executable memory footprint: %dKB\<newline>'' [Num (footprint k)]
    \<and> unat (footprint k) = (unat (sym_end k) - unat (sym_entry k) + 1023) div 1024
    \<and> fst (mon_kerninfo k argv) ! 2
        = Cprintf ''  entry  %08x (virt)  %08x (phys)\<newline>''
            [Num (sym_entry k), Num (sym_entry k - KERNBASE k)]
    \<and> (sym_entry k = 0xF0100000 \<and> sym_end k = 0xF0120000 \<longrightarrow> footprint k = 128)
    \<and> (sym_entry k = 0xF0100000 \<and> KERNBASE k = 0xF0000000
         \<longrightarrow> sym_entry k - KERNBASE k = 0x00100000)"
proof -
  have d: "unat (sym_end k - sym_entry k) = unat (sym_end k) - unat (sym_entry k)"
    using assms(1) by (rule unat_sub)
  have f: "unat (footprint k) = (unat (sym_end k) - unat (sym_entry k) + 1023) div 1024"
    unfolding footprint_def using roundup_kb [of "sym_end k - sym_entry k"] assms(2) d
    by simp
  have c: "sym_entry k = 0xF0100000 \<and> sym_end k = 0xF0120000 \<longrightarrow> footprint k = 128"
  proof
    assume "sym_entry k = 0xF0100000 \<and> sym_end k = 0xF0120000"
    then have "unat (footprint k) = 128" using f by simp
    then show "footprint k = 128" by (simp add: word_unat_eq_iff)
  qed
  show ?thesis using f c by (simp add: mon_kerninfo_def)
qed

theorem kerninfo_footprint_witness:
  "sym_entry sim_kernel \<le> sym_end sim_kernel
   \<and> unat (sym_end sim_kernel) - unat (sym_entry sim_kernel) + 1023 < 2 ^ 31
   \<and> sym_entry sim_kernel = 0xF0100000 \<and> sym_end sim_kernel = 0xF0120000
   \<and> KERNBASE sim_kernel = 0xF0000000
   \<and> last (fst (mon_kerninfo sim_kernel [''kerninfo'']))
       = Cprintf ''Kernel executable memory footprint: %dKB\<newline>'' [Num 128]
   \<and> fst (mon_kerninfo sim_kernel [''kerninfo'']) ! 2
       = Cprintf ''  entry  %08x (virt)  %08x (phys)\<newline>'' [Num 0xF0100000, Num 0x00100000]"
proof -
  have h1: "sym_entry sim_kernel \<le> sym_end sim_kernel" by (simp add: sim_kernel_def)
  have h2: "unat (sym_end sim_kernel) - unat (sym_entry sim_kernel) + 1023 < 2 ^ 31"
    by (simp add: sim_kernel_def)
  have s: "sym_entry sim_kernel = 0xF0100000" "sym_end sim_kernel = 0xF0120000"
    "KERNBASE sim_kernel = 0xF0000000"
    by (simp_all add: sim_kernel_def)
  show ?thesis
    using kerninfo_footprint [OF h1 h2, of "[''kerninfo'']"] h1 h2 s by auto
qed

subsection \<open>backtrace\<close>

lemma backtrace_loop_chain:
  "fp_chain k ebp fps \<Longrightarrow> length fps \<le> fuel \<Longrightarrow>
     backtrace_loop fuel k ebp = (concat (map (frame_lines k) fps), Returned 0)"
proof (induction fps arbitrary: ebp fuel)
  case Nil
  then show ?case by (cases fuel) simp_all
next
  case (Cons fp fps)
  then obtain n where n: "fuel = Suc n" by (cases fuel) auto
  from Cons.prems have c: "ebp = fp" "fp \<noteq> 0" "fp_chain k (mem k fp) fps" by simp_all
  have "backtrace_loop n k (mem k fp) = (concat (map (frame_lines k) fps), Returned 0)"
    using Cons.IH [OF c(3)] Cons.prems(2) n by simp
  moreover have "frame_lines k fp = raw_line k fp # sym_lines k (mem k (fp + 4))"
    by (simp add: frame_lines_def)
  ultimately show ?case using c n by simp
qed

lemma backtrace_loop_short:
  "fp_chain k ebp fps \<Longrightarrow> fuel < length fps \<Longrightarrow>
     snd (backtrace_loop fuel k ebp) = Out_of_fuel"
proof (induction fps arbitrary: ebp fuel)
  case Nil
  then show ?case by simp
next
  case (Cons fp fps)
  from Cons.prems have c: "ebp = fp" "fp \<noteq> 0" "fp_chain k (mem k fp) fps" by simp_all
  show ?case
  proof (cases fuel)
    case 0
    then show ?thesis using c by simp
  next
    case (Suc n)
    then have "snd (backtrace_loop n k (mem k fp)) = Out_of_fuel"
      using Cons.IH [OF c(3)] Cons.prems(2) by simp
    then show ?thesis using c Suc by (simp add: split_beta)
  qed
qed

lemma filter_raw_frame_lines: "filter is_raw (frame_lines k fp) = [raw_line k fp]"
  by (simp add: frame_lines_def is_raw_def raw_line_def sym_lines_def raw_fmt_def sym_fmt_def
      split: option.split)

lemma filter_raw_frames:
  "filter is_raw (concat (map (frame_lines k) fps)) = map (raw_line k) fps"
  by (induction fps) (simp_all add: filter_raw_frame_lines)

lemma frame_lines_eq:
  "frame_lines k fp =
     Cprintf ''  ebp %08x eip %08x args %08x %08x %08x %08x %08x\<newline>''
       [Num fp, Num (mem k (fp + 4)), Num (mem k (fp + 8)), Num (mem k (fp + 12)),
        Num (mem k (fp + 16)), Num (mem k (fp + 20)), Num (mem k (fp + 24))]
     # sym_lines k (mem k (fp + 4))"
  by (simp add: frame_lines_def raw_line_def raw_fmt_def)

lemma raw_line_eq:
  "raw_line k fp =
     Cprintf ''  ebp %08x eip %08x args %08x %08x %08x %08x %08x\<newline>''
       [Num fp, Num (mem k (fp + 4)), Num (mem k (fp + 8)), Num (mem k (fp + 12)),
        Num (mem k (fp + 16)), Num (mem k (fp + 20)), Num (mem k (fp + 24))]"
  by (simp add: raw_line_def raw_fmt_def)

text \<open>
  C4. For a frame-pointer chain that ends in a saved frame pointer of zero, \<open>backtrace\<close>
  prints its header and then, for each non-zero frame pointer \<open>fp\<close> of the chain in
  order, the raw line of that frame, which holds \<open>fp\<close>, the return address read at
  \<open>fp + 4\<close> and the five words read at \<open>fp + 8\<close> to \<open>fp + 24\<close>, followed by the symbol
  line of the return address if there is one; the raw lines are as many as the non-zero
  frame pointers. The loop body runs once per frame pointer, stops at zero, and the
  handler returns 0.
\<close>

theorem backtrace_chain:
  assumes "fp_chain k (read_ebp k) fps" and "length fps \<le> fuel"
  shows "mon_backtrace fuel k argv =
      (Cprintf ''Stack backtrace:\<newline>'' [] # concat (map (frame_lines k) fps), Returned 0)
    \<and> mon_backtrace fuel k argv =
      (Cprintf ''Stack backtrace:\<newline>'' []
         # concat (map (\<lambda>fp.
             Cprintf ''  ebp %08x eip %08x args %08x %08x %08x %08x %08x\<newline>''
               [Num fp, Num (mem k (fp + 4)), Num (mem k (fp + 8)), Num (mem k (fp + 12)),
                Num (mem k (fp + 16)), Num (mem k (fp + 20)), Num (mem k (fp + 24))]
             # sym_lines k (mem k (fp + 4))) fps),
       Returned 0)
    \<and> filter is_raw (fst (mon_backtrace fuel k argv)) = map (raw_line k) fps
    \<and> filter is_raw (fst (mon_backtrace fuel k argv)) =
        map (\<lambda>fp.
          Cprintf ''  ebp %08x eip %08x args %08x %08x %08x %08x %08x\<newline>''
            [Num fp, Num (mem k (fp + 4)), Num (mem k (fp + 8)), Num (mem k (fp + 12)),
             Num (mem k (fp + 16)), Num (mem k (fp + 20)), Num (mem k (fp + 24))]) fps
    \<and> length (filter is_raw (fst (mon_backtrace fuel k argv))) = length fps
    \<and> (\<forall>n < length fps. snd (mon_backtrace n k argv) = Out_of_fuel)"
proof -
  have r: "mon_backtrace fuel k argv =
      (Cprintf ''Stack backtrace:\<newline>'' [] # concat (map (frame_lines k) fps), Returned 0)"
    using backtrace_loop_chain [OF assms] by (simp add: mon_backtrace_def)
  have r': "mon_backtrace fuel k argv =
      (Cprintf ''Stack backtrace:\<newline>'' []
         # concat (map (\<lambda>fp.
             Cprintf ''  ebp %08x eip %08x args %08x %08x %08x %08x %08x\<newline>''
               [Num fp, Num (mem k (fp + 4)), Num (mem k (fp + 8)), Num (mem k (fp + 12)),
                Num (mem k (fp + 16)), Num (mem k (fp + 20)), Num (mem k (fp + 24))]
             # sym_lines k (mem k (fp + 4))) fps),
       Returned 0)"
    unfolding r using frame_lines_eq [of k, THEN ext, of "\<lambda>fp. fp"] by simp
  have h: "\<not> is_raw (Cprintf ''Stack backtrace:\<newline>'' [])"
    by (simp add: is_raw_def raw_fmt_def)
  have f: "filter is_raw (fst (mon_backtrace fuel k argv)) = map (raw_line k) fps"
    using r h by (simp add: filter_raw_frames)
  have f': "filter is_raw (fst (mon_backtrace fuel k argv)) =
        map (\<lambda>fp.
          Cprintf ''  ebp %08x eip %08x args %08x %08x %08x %08x %08x\<newline>''
            [Num fp, Num (mem k (fp + 4)), Num (mem k (fp + 8)), Num (mem k (fp + 12)),
             Num (mem k (fp + 16)), Num (mem k (fp + 20)), Num (mem k (fp + 24))]) fps"
    unfolding f using raw_line_eq [of k, THEN ext, of "\<lambda>fp. fp"] by simp
  have n: "length (filter is_raw (fst (mon_backtrace fuel k argv))) = length fps"
    unfolding f by simp
  have s: "\<forall>n < length fps. snd (mon_backtrace n k argv) = Out_of_fuel"
    using backtrace_loop_short [OF assms(1)] by (simp add: mon_backtrace_def split_beta)
  show ?thesis using r r' f f' n s by (intro conjI)
qed

theorem backtrace_chain_witness:
  "fp_chain sim_kernel (read_ebp sim_kernel) [0x7000, 0x7020]
   \<and> length [0x7000, 0x7020 :: u32] \<le> 2
   \<and> mon_backtrace 2 sim_kernel [''backtrace''] =
      ([Cprintf ''Stack backtrace:\<newline>'' [],
        Cprintf ''  ebp %08x eip %08x args %08x %08x %08x %08x %08x\<newline>''
          [Num 0x7000, Num 0xF0100ABC, Num 0x11, Num 0x22, Num 0x33, Num 0x44, Num 0x55],
        Cprintf sym_fmt [Txt ''kern/init.c'', Num 24, Num 9, Txt ''i386_init'', Num 0xBC],
        Cprintf ''  ebp %08x eip %08x args %08x %08x %08x %08x %08x\<newline>''
          [Num 0x7020, Num 0xF0100DEF, Num 0xA1, Num 0xA2, Num 0xA3, Num 0xA4, Num 0xA5]],
       Returned 0)
   \<and> filter is_raw (fst (mon_backtrace 2 sim_kernel [''backtrace''])) =
      [Cprintf ''  ebp %08x eip %08x args %08x %08x %08x %08x %08x\<newline>''
         [Num 0x7000, Num 0xF0100ABC, Num 0x11, Num 0x22, Num 0x33, Num 0x44, Num 0x55],
       Cprintf ''  ebp %08x eip %08x args %08x %08x %08x %08x %08x\<newline>''
         [Num 0x7020, Num 0xF0100DEF, Num 0xA1, Num 0xA2, Num 0xA3, Num 0xA4, Num 0xA5]]
   \<and> snd (mon_backtrace 1 sim_kernel [''backtrace'']) = Out_of_fuel"
proof -
  have h1: "fp_chain sim_kernel (read_ebp sim_kernel) [0x7000, 0x7020]"
    by (simp add: sim_kernel_def)
  have h2: "length [0x7000, 0x7020 :: u32] \<le> 2" by simp
  have m: "mem sim_kernel 0x7004 = 0xF0100ABC" "mem sim_kernel 0x7008 = 0x11"
    "mem sim_kernel 0x700C = 0x22" "mem sim_kernel 0x7010 = 0x33"
    "mem sim_kernel 0x7014 = 0x44" "mem sim_kernel 0x7018 = 0x55"
    "mem sim_kernel 0x7024 = 0xF0100DEF" "mem sim_kernel 0x7028 = 0xA1"
    "mem sim_kernel 0x702C = 0xA2" "mem sim_kernel 0x7030 = 0xA3"
    "mem sim_kernel 0x7034 = 0xA4" "mem sim_kernel 0x7038 = 0xA5"
    by (simp_all add: sim_kernel_def)
  have y: "sym_lines sim_kernel 0xF0100ABC =
      [Cprintf sym_fmt [Txt ''kern/init.c'', Num 24, Num 9, Txt ''i386_init'', Num 0xBC]]"
    "sym_lines sim_kernel 0xF0100DEF = []"
    by (simp_all add: sym_lines_def sim_kernel_def)
  note t = backtrace_chain [OF h1 h2, of "[''backtrace'']"]
  have o: "snd (mon_backtrace 1 sim_kernel [''backtrace'']) = Out_of_fuel"
    using t [THEN conjunct2, THEN conjunct2, THEN conjunct2, THEN conjunct2, THEN conjunct2,
        rule_format, of 1]
    by simp
  have r: "mon_backtrace 2 sim_kernel [''backtrace''] =
      ([Cprintf ''Stack backtrace:\<newline>'' [],
        Cprintf ''  ebp %08x eip %08x args %08x %08x %08x %08x %08x\<newline>''
          [Num 0x7000, Num 0xF0100ABC, Num 0x11, Num 0x22, Num 0x33, Num 0x44, Num 0x55],
        Cprintf sym_fmt [Txt ''kern/init.c'', Num 24, Num 9, Txt ''i386_init'', Num 0xBC],
        Cprintf ''  ebp %08x eip %08x args %08x %08x %08x %08x %08x\<newline>''
          [Num 0x7020, Num 0xF0100DEF, Num 0xA1, Num 0xA2, Num 0xA3, Num 0xA4, Num 0xA5]],
       Returned 0)"
    using t [THEN conjunct2, THEN conjunct1] m y by simp
  have f: "filter is_raw (fst (mon_backtrace 2 sim_kernel [''backtrace''])) =
      [Cprintf ''  ebp %08x eip %08x args %08x %08x %08x %08x %08x\<newline>''
         [Num 0x7000, Num 0xF0100ABC, Num 0x11, Num 0x22, Num 0x33, Num 0x44, Num 0x55],
       Cprintf ''  ebp %08x eip %08x args %08x %08x %08x %08x %08x\<newline>''
         [Num 0x7020, Num 0xF0100DEF, Num 0xA1, Num 0xA2, Num 0xA3, Num 0xA4, Num 0xA5]]"
    using t [THEN conjunct2, THEN conjunct2, THEN conjunct2, THEN conjunct1] m by simp
  show ?thesis using h1 h2 r f o by (intro conjI)
qed

subsection \<open>showmappings with the addresses out of order\<close>

lemma showmapping_loop_exit:
  "end' < begin' \<Longrightarrow> showmapping_loop fuel k begin' end' = ([], Returned 0)"
  by (cases fuel) (simp_all add: not_le [symmetric])

text \<open>
  C6. With \<open>begin > end\<close> the command prints the invalid-address diagnostic and
  nothing else, calls the page-table accessor zero times, and returns 0, whatever the
  bound on the loop.
\<close>

theorem showmapping_begin_after_end:
  assumes "length argv = 3" and "strtol16 k (argv ! 2) < strtol16 k (argv ! 1)"
  shows "mon_showmapping fuel k argv = ([Cprintf ''Invalid address input.\<newline>'' []], Returned 0)
    \<and> filter is_walk (fst (mon_showmapping fuel k argv)) = []"
  using assms by (simp add: mon_showmapping_def Let_def showmapping_loop_exit is_walk_def)

theorem showmapping_begin_after_end_witness:
  "length [''showmappings'', ''0xA'', ''0x5''] = 3
   \<and> strtol16 sim_kernel ([''showmappings'', ''0xA'', ''0x5''] ! 2)
       < strtol16 sim_kernel ([''showmappings'', ''0xA'', ''0x5''] ! 1)
   \<and> mon_showmapping 0 sim_kernel [''showmappings'', ''0xA'', ''0x5'']
       = ([Cprintf ''Invalid address input.\<newline>'' []], Returned 0)"
proof -
  have h1: "length [''showmappings'', ''0xA'', ''0x5''] = 3" by simp
  have h2: "strtol16 sim_kernel ([''showmappings'', ''0xA'', ''0x5''] ! 2)
       < strtol16 sim_kernel ([''showmappings'', ''0xA'', ''0x5''] ! 1)"
    by (simp add: sim_kernel_def sim_strtol16_def hex_digit_def)
  show ?thesis
    using showmapping_begin_after_end [OF h1 h2, of 0] h1 h2 by simp
qed

subsection \<open>The loop of showmappings\<close>

lemma page_addr_0 [simp]: "page_addr b 0 = b"
  by (simp add: page_addr_def)

lemma page_addr_Suc: "page_addr (b + PGSIZE) j = page_addr b (Suc j)"
  by (simp add: page_addr_def algebra_simps)

lemma showmapping_loop_step:
  assumes "a \<le> e"
  shows "showmapping_loop (Suc n) k a e =
    (case pgdir_walk k a of
       None \<Rightarrow> (visit k a, Panicked)
     | Some h \<Rightarrow> (visit k a @ fst (showmapping_loop n k (a + PGSIZE) e),
                  snd (showmapping_loop n k (a + PGSIZE) e)))"
  using assms by (simp add: visit_def split_beta split: option.split)

lemma upt_Suc_shift: "map f [0..<Suc m] = f 0 # map (\<lambda>j. f (Suc j)) [0..<m]"
  by (simp only: upt_conv_Cons [of 0 "Suc m"] map_Suc_upt [symmetric] list.map map_map o_def)

text \<open>
  As long as the guard holds and the accessor returns an entry, the loop runs its body.
\<close>

lemma showmapping_loop_unroll:
  assumes "\<forall>j<m. page_addr b j \<le> e \<and> pgdir_walk k (page_addr b j) \<noteq> None"
    and "m \<le> fuel"
  shows "showmapping_loop fuel k b e =
    (concat (map (\<lambda>j. visit k (page_addr b j)) [0..<m])
       @ fst (showmapping_loop (fuel - m) k (page_addr b m) e),
     snd (showmapping_loop (fuel - m) k (page_addr b m) e))"
  using assms
proof (induction m arbitrary: b fuel)
  case 0
  then show ?case by simp
next
  case (Suc m)
  then obtain n where n: "fuel = Suc n" by (cases fuel) auto
  from Suc.prems(1) have b: "b \<le> e" "pgdir_walk k b \<noteq> None" by force+
  then obtain h where h: "pgdir_walk k b = Some h" by auto
  have "\<forall>j<m. page_addr (b + PGSIZE) j \<le> e \<and> pgdir_walk k (page_addr (b + PGSIZE) j) \<noteq> None"
    using Suc.prems(1) by (simp add: page_addr_Suc)
  then have ih: "showmapping_loop n k (b + PGSIZE) e =
    (concat (map (\<lambda>j. visit k (page_addr (b + PGSIZE) j)) [0..<m])
       @ fst (showmapping_loop (n - m) k (page_addr (b + PGSIZE) m) e),
     snd (showmapping_loop (n - m) k (page_addr (b + PGSIZE) m) e))"
    using Suc.IH [of "b + PGSIZE" n] Suc.prems(2) n by simp
  show ?case
    unfolding n showmapping_loop_step [OF b(1)] h upt_Suc_shift [of _ m]
    by (simp add: ih page_addr_Suc)
qed


lemma unat_page_addr: "unat (page_addr b j) = (unat b + j * 4096) mod 2 ^ 32"
proof -
  have "page_addr b j = word_of_nat (unat b + j * 4096)"
    by (simp add: page_addr_def PGSIZE_def)
  then show ?thesis by (simp only: unat_of_nat) simp
qed

lemma unat_page_addr_small:
  "unat b + j * 4096 \<le> unat (e :: u32) \<Longrightarrow> unat (page_addr b j) = unat b + j * 4096"
proof -
  assume "unat b + j * 4096 \<le> unat e"
  moreover have "unat e < 2 ^ 32" using unsigned_less [of e] by simp
  ultimately show ?thesis by (simp add: unat_page_addr)
qed

lemma page_addr_residue: "unat (page_addr b j) mod 4096 = unat b mod 4096"
proof -
  have "(4096 :: nat) dvd 2 ^ 32" by simp
  then have "(unat b + j * 4096) mod 2 ^ 32 mod 4096 = (unat b + j * 4096) mod 4096"
    by (rule mod_mod_cancel)
  then show ?thesis by (simp add: unat_page_addr)
qed

text \<open>
  An address of the top page is the largest 32-bit address of its residue modulo the page
  size.
\<close>

lemma top_page_largest:
  fixes a l :: u32
  assumes "2 ^ 32 - 4096 \<le> unat l" and "unat a mod 4096 = unat l mod 4096"
  shows "a \<le> l"
proof -
  have a: "unat a < 2 ^ 32" and l: "unat l < 2 ^ 32"
    using unsigned_less [of a] unsigned_less [of l] by simp_all
  have "unat a div 4096 < 1048576"
    using a by (simp add: div_less_iff_less_mult)
  moreover have "1048575 \<le> unat l div 4096"
    using div_le_mono [OF assms(1), of 4096] by simp
  ultimately have "unat a div 4096 \<le> unat l div 4096" by simp
  then have "unat a div 4096 * 4096 \<le> unat l div 4096 * 4096" by (rule mult_le_mono1)
  then have "unat a div 4096 * 4096 + unat a mod 4096 \<le> unat l div 4096 * 4096 + unat l mod 4096"
    unfolding assms(2) by (rule add_le_mono1)
  then have "unat a \<le> unat l" by (simp only: div_mult_mod_eq)
  then show ?thesis by (simp add: word_le_nat_alt)
qed


lemma last_page_le:
  assumes "b \<le> e"
  shows "(unat b + j * 4096 \<le> unat e) = (j \<le> last_page b e)"
proof -
  have "unat b \<le> unat e" using assms by (simp add: word_le_nat_alt)
  then have "(unat b + j * 4096 \<le> unat e) = (j * 4096 \<le> unat e - unat b)" by arith
  also have "\<dots> = (j \<le> (unat e - unat b) div 4096)"
    by (simp add: less_eq_div_iff_mult_less_eq)
  finally show ?thesis by (simp add: last_page_def PGSIZE_def)
qed

lemma page_addr_in_range:
  assumes "b \<le> e" and "j \<le> last_page b e"
  shows "unat (page_addr b j) = unat b + j * 4096" and "page_addr b j \<le> e"
proof -
  have le: "unat b + j * 4096 \<le> unat e" using assms by (simp add: last_page_le)
  then show u: "unat (page_addr b j) = unat b + j * 4096" by (rule unat_page_addr_small)
  show "page_addr b j \<le> e" using le u by (simp add: word_le_nat_alt)
qed

lemma visit_length [simp]: "length (visit k a) = 2"
  by (simp add: visit_def split: option.split)

lemma visits_length [simp]:
  "length (concat (map (\<lambda>j. visit k (f j)) [0..<m])) = 2 * m"
  by (induction m) simp_all

lemma filter_walk_visit [simp]: "filter is_walk (visit k a) = [Pgdir_walk a]"
  by (simp add: visit_def is_walk_def show_entry_def split: option.split)

lemma filter_walk_visits:
  "filter is_walk (concat (map (\<lambda>j. visit k (f j)) [0..<m])) = map (\<lambda>j. Pgdir_walk (f j)) [0..<m]"
  by (induction m) simp_all

text \<open>The loop without wrap-around: it runs its body on each page of the range and ends.\<close>

lemma showmapping_loop_ends:
  assumes "b \<le> e"
    and "unat b + last_page b e * 4096 < 2 ^ 32 - 4096"
    and "\<forall>j\<le>last_page b e. pgdir_walk k (page_addr b j) \<noteq> None"
    and "last_page b e < fuel"
  shows "showmapping_loop fuel k b e =
    (concat (map (\<lambda>j. visit k (page_addr b j)) [0..<Suc (last_page b e)]), Returned 0)"
proof -
  let ?n = "last_page b e"
  have "\<not> (unat b + Suc ?n * 4096 \<le> unat e)"
    using last_page_le [OF assms(1), of "Suc ?n"] by simp
  moreover have "unat (page_addr b (Suc ?n)) = unat b + Suc ?n * 4096"
    using assms(2) by (simp add: unat_page_addr)
  ultimately have out: "e < page_addr b (Suc ?n)" by (simp add: word_less_nat_alt)
  have "\<forall>j<Suc ?n. page_addr b j \<le> e \<and> pgdir_walk k (page_addr b j) \<noteq> None"
    using assms(3) page_addr_in_range(2) [OF assms(1)] by (simp add: less_Suc_eq_le)
  then show ?thesis
    using showmapping_loop_unroll [of "Suc ?n" b e k fuel] assms(4)
      showmapping_loop_exit [OF out]
    by simp
qed

lemma showmapping_loop_not_yet:
  assumes "b \<le> e"
    and "\<forall>j\<le>last_page b e. pgdir_walk k (page_addr b j) \<noteq> None"
    and "fuel \<le> last_page b e"
  shows "snd (showmapping_loop fuel k b e) = Out_of_fuel"
proof -
  have "\<forall>j<fuel. page_addr b j \<le> e \<and> pgdir_walk k (page_addr b j) \<noteq> None"
    using assms(2,3) page_addr_in_range(2) [OF assms(1)] by simp
  moreover have "page_addr b fuel \<le> e"
    using page_addr_in_range(2) [OF assms(1,3)] .
  ultimately show ?thesis
    using showmapping_loop_unroll [of fuel b e k fuel] by simp
qed

text \<open>The loop with wrap-around: the guard holds at every address it reaches.\<close>

lemma wrapped_in_range:
  assumes "b \<le> e" and "2 ^ 32 - 4096 \<le> unat b + last_page b e * 4096"
  shows "page_addr b j \<le> e"
proof -
  let ?l = "page_addr b (last_page b e)"
  have l: "unat ?l = unat b + last_page b e * 4096" "?l \<le> e"
    using page_addr_in_range [OF assms(1), of "last_page b e"] by simp_all
  have "page_addr b j \<le> ?l"
    using assms(2) l(1) by (intro top_page_largest) (simp_all add: page_addr_residue)
  then show ?thesis using l(2) by simp
qed

lemma showmapping_loop_never_returns:
  assumes "\<forall>j. page_addr b j \<le> e"
  shows "snd (showmapping_loop fuel k b e) = Out_of_fuel
       \<or> snd (showmapping_loop fuel k b e) = Panicked"
  using assms
proof (induction fuel arbitrary: b)
  case 0
  then have "b \<le> e" using page_addr_0 by metis
  then show ?case by simp
next
  case (Suc n)
  have b: "b \<le> e" using Suc.prems page_addr_0 by metis
  have "\<forall>j. page_addr (b + PGSIZE) j \<le> e" using Suc.prems by (simp add: page_addr_Suc)
  then have "snd (showmapping_loop n k (b + PGSIZE) e) = Out_of_fuel
       \<or> snd (showmapping_loop n k (b + PGSIZE) e) = Panicked"
    by (rule Suc.IH)
  then show ?case
    unfolding showmapping_loop_step [OF b] by (simp split: option.split)
qed

lemma showmapping_loop_forever:
  assumes "\<forall>j. page_addr b j \<le> e" and "\<forall>j. pgdir_walk k (page_addr b j) \<noteq> None"
  shows "showmapping_loop fuel k b e =
    (concat (map (\<lambda>j. visit k (page_addr b j)) [0..<fuel]), Out_of_fuel)"
  using showmapping_loop_unroll [of fuel b e k fuel] assms by simp


text \<open>
  C10, amended. For \<open>begin \<le> end\<close>, whether the loop ends depends on the wrap-around
  of \<open>begin += PGSIZE\<close>. If every address \<open>begin + j * PGSIZE \<le> end\<close> is below
  \<open>2 ^ 32 - PGSIZE\<close> and the accessor returns an entry at each of them, the body runs
  exactly \<open>last_page begin end + 1\<close> times, on these addresses in order, and the loop
  ends. If the last such address is in the top page (then so is \<open>end\<close>), the next
  address wraps around to a value that is again at most \<open>end\<close>, and the loop never leaves
  through its guard; if moreover the accessor returns an entry at every address
  \<open>begin + j * PGSIZE\<close> (modulo \<open>2 ^ 32\<close>), the loop runs for ever.
\<close>

theorem showmapping_wraparound:
  assumes "b \<le> e"
  shows "((\<forall>j. unat b + j * 4096 \<le> unat e \<longrightarrow> unat b + j * 4096 < 2 ^ 32 - 4096)
          \<and> (\<forall>j\<le>last_page b e. pgdir_walk k (page_addr b j) \<noteq> None) \<longrightarrow>
            (\<forall>fuel>last_page b e.
               showmapping_loop fuel k b e =
                 (concat (map (\<lambda>j. visit k (page_addr b j)) [0..<Suc (last_page b e)]),
                  Returned 0)
               \<and> length (filter is_walk (fst (showmapping_loop fuel k b e)))
                   = last_page b e + 1)
            \<and> (\<forall>fuel\<le>last_page b e. snd (showmapping_loop fuel k b e) = Out_of_fuel))
    \<and> (2 ^ 32 - 4096 \<le> unat b + last_page b e * 4096 \<longrightarrow>
            2 ^ 32 - 4096 \<le> unat e
            \<and> page_addr b (Suc (last_page b e)) \<le> e
            \<and> unat (page_addr b (Suc (last_page b e)))
                = unat b + last_page b e * 4096 + 4096 - 2 ^ 32
            \<and> (\<forall>fuel r. snd (showmapping_loop fuel k b e) \<noteq> Returned r)
            \<and> ((\<forall>j. pgdir_walk k (page_addr b j) \<noteq> None) \<longrightarrow>
                  (\<forall>fuel. showmapping_loop fuel k b e =
                     (concat (map (\<lambda>j. visit k (page_addr b j)) [0..<fuel]), Out_of_fuel))))"
proof (intro conjI impI)
  let ?n = "last_page b e"
  assume h: "(\<forall>j. unat b + j * 4096 \<le> unat e \<longrightarrow> unat b + j * 4096 < 2 ^ 32 - 4096)
          \<and> (\<forall>j\<le>?n. pgdir_walk k (page_addr b j) \<noteq> None)"
  have "unat b + ?n * 4096 \<le> unat e" using last_page_le [OF assms, of ?n] by simp
  then have small: "unat b + ?n * 4096 < 2 ^ 32 - 4096" using h by blast
  show "\<forall>fuel>?n.
      showmapping_loop fuel k b e =
        (concat (map (\<lambda>j. visit k (page_addr b j)) [0..<Suc ?n]), Returned 0)
      \<and> length (filter is_walk (fst (showmapping_loop fuel k b e))) = ?n + 1"
  proof (intro allI impI)
    fix fuel assume "?n < fuel"
    then have "showmapping_loop fuel k b e =
        (concat (map (\<lambda>j. visit k (page_addr b j)) [0..<Suc ?n]), Returned 0)"
      using showmapping_loop_ends [OF assms small] h by blast
    then show "showmapping_loop fuel k b e =
        (concat (map (\<lambda>j. visit k (page_addr b j)) [0..<Suc ?n]), Returned 0)
      \<and> length (filter is_walk (fst (showmapping_loop fuel k b e))) = ?n + 1"
      by (simp only: fst_conv filter_walk_visits) simp
  qed
  show "\<forall>fuel\<le>?n. snd (showmapping_loop fuel k b e) = Out_of_fuel"
    using showmapping_loop_not_yet [OF assms] h by blast
next
  let ?n = "last_page b e"
  assume top: "2 ^ 32 - 4096 \<le> unat b + ?n * 4096"
  have all: "\<forall>j. page_addr b j \<le> e"
    using wrapped_in_range [OF assms top] by simp
  show "page_addr b (Suc ?n) \<le> e" using all by simp
  have l: "unat b + ?n * 4096 \<le> unat e" using last_page_le [OF assms, of ?n] by simp
  then show "2 ^ 32 - 4096 \<le> unat e" using top by (rule order_trans [rotated])
  note l
  moreover have "unat e < 2 ^ 32" using unsigned_less [of e] by simp
  ultimately have "unat b + ?n * 4096 < 2 ^ 32" by simp
  then show "unat (page_addr b (Suc ?n)) = unat b + ?n * 4096 + 4096 - 2 ^ 32"
    using top by (simp add: unat_page_addr mod_if)
  show "\<forall>fuel r. snd (showmapping_loop fuel k b e) \<noteq> Returned r"
    using showmapping_loop_never_returns [OF all, of _ k] by (metis outcome.distinct(1,5))
  assume "\<forall>j. pgdir_walk k (page_addr b j) \<noteq> None"
  then show "\<forall>fuel. showmapping_loop fuel k b e =
      (concat (map (\<lambda>j. visit k (page_addr b j)) [0..<fuel]), Out_of_fuel)"
    using showmapping_loop_forever [OF all] by simp
qed


theorem showmapping_wraparound_witness:
  "(0x1000 :: u32) \<le> 0x3000 \<and> last_page 0x1000 0x3000 = 2
   \<and> showmapping_loop 3 flat_kernel 0x1000 0x3000 =
       ([Pgdir_walk 0x1000,
         Cprintf ''0x%x: page table entry doesn't exist.\<newline>'' [Num 0x1000],
         Pgdir_walk 0x2000,
         Cprintf ''Virtual address: 0x%x, physical address: 0x%x\<newline>  PTE_P: %d, PTE_W: %d, PTE_U: %d\<newline>''
           [Num 0x2000, Num 0x5000, Num 1, Num 1, Num 0],
         Pgdir_walk 0x3000,
         Cprintf ''0x%x: page table entry doesn't exist.\<newline>'' [Num 0x3000]],
        Returned 0)
   \<and> snd (showmapping_loop 2 flat_kernel 0x1000 0x3000) = Out_of_fuel
   \<and> (0xFFFFE000 :: u32) \<le> 0xFFFFF000 \<and> last_page 0xFFFFE000 0xFFFFF000 = 1
   \<and> page_addr 0xFFFFE000 2 = 0
   \<and> snd (showmapping_loop 1000 flat_kernel 0xFFFFE000 0xFFFFF000) = Out_of_fuel"
proof -
  have le1: "(0x1000 :: u32) \<le> 0x3000" by simp
  have lp1: "last_page 0x1000 0x3000 = 2" by (simp add: last_page_def PGSIZE_def)
  have small: "\<forall>j. unat (0x1000 :: u32) + j * 4096 \<le> unat (0x3000 :: u32)
      \<longrightarrow> unat (0x1000 :: u32) + j * 4096 < 2 ^ 32 - 4096"
    by simp
  have walk: "\<forall>j. pgdir_walk flat_kernel (page_addr a j) \<noteq> None" for a
    by (simp add: flat_kernel_def)
  have vs: "concat (map (\<lambda>j. visit flat_kernel (page_addr 0x1000 j)) [0..<Suc 2]) =
       [Pgdir_walk 0x1000,
         Cprintf ''0x%x: page table entry doesn't exist.\<newline>'' [Num 0x1000],
         Pgdir_walk 0x2000,
         Cprintf ''Virtual address: 0x%x, physical address: 0x%x\<newline>  PTE_P: %d, PTE_W: %d, PTE_U: %d\<newline>''
           [Num 0x2000, Num 0x5000, Num 1, Num 1, Num 0],
         Pgdir_walk 0x3000,
         Cprintf ''0x%x: page table entry doesn't exist.\<newline>'' [Num 0x3000]]"
    by code_simp
  note t1 = showmapping_wraparound [OF le1, of flat_kernel, THEN conjunct1, rule_format]
  have r1: "showmapping_loop 3 flat_kernel 0x1000 0x3000 =
      (concat (map (\<lambda>j. visit flat_kernel (page_addr 0x1000 j)) [0..<Suc 2]), Returned 0)"
    using t1 [THEN conjunct1, rule_format, of 3] small walk lp1 by simp
  have r2: "snd (showmapping_loop 2 flat_kernel 0x1000 0x3000) = Out_of_fuel"
    using t1 [THEN conjunct2, rule_format, of 2] small walk lp1 by simp
  have le2: "(0xFFFFE000 :: u32) \<le> 0xFFFFF000" by simp
  have lp2: "last_page 0xFFFFE000 0xFFFFF000 = 1" by (simp add: last_page_def PGSIZE_def)
  have pa: "page_addr 0xFFFFE000 2 = 0" by (simp add: page_addr_def PGSIZE_def)
  have top: "2 ^ 32 - 4096 \<le> unat (0xFFFFE000 :: u32) + last_page 0xFFFFE000 0xFFFFF000 * 4096"
    by (simp add: lp2)
  note t2 = showmapping_wraparound [OF le2, of flat_kernel, THEN conjunct2, rule_format, OF top]
  have r3: "snd (showmapping_loop 1000 flat_kernel 0xFFFFE000 0xFFFFF000) = Out_of_fuel"
    using t2 [THEN conjunct2, THEN conjunct2, THEN conjunct2, THEN conjunct2, rule_format,
        OF walk [rule_format], of 1000]
    by simp
  show ?thesis using le1 lp1 r1 vs r2 le2 lp2 pa r3 by simp
qed

lemma sim_walk_wrapped:
  assumes "j < 1026"
  shows "pgdir_walk sim_kernel (page_addr 0xFFFFE000 j) \<noteq> None"
proof (cases "j < 2")
  case True
  then have "unat (page_addr 0xFFFFE000 j) = 4294959104 + j * 4096"
    by (simp add: unat_page_addr)
  then have "unat (0xFF800000 :: u32) \<le> unat (page_addr 0xFFFFE000 j)" by simp
  then have "0xFF800000 \<le> page_addr 0xFFFFE000 j" by (simp only: word_le_nat_alt)
  then show ?thesis by (simp add: sim_kernel_def)
next
  case False
  define i where "i = j - 2"
  have i: "j = i + 2" "i < 1024" using False assms by (simp_all add: i_def)
  have "unat (0xFFFFE000 :: u32) + j * 4096 = i * 4096 + 2 ^ 32" using i by simp
  then have "unat (page_addr 0xFFFFE000 j) = (i * 4096 + 2 ^ 32) mod 2 ^ 32"
    by (simp only: unat_page_addr)
  also have "\<dots> = i * 4096 mod 2 ^ 32" by (rule mod_add_self2)
  also have "\<dots> = i * 4096" using i(2) by simp
  finally have "unat (page_addr 0xFFFFE000 j) < unat (0x400000 :: u32)" using i(2) by simp
  then have "page_addr 0xFFFFE000 j < 0x400000" by (simp only: word_less_nat_alt)
  then show ?thesis by (simp add: sim_kernel_def)
qed

lemma sim_wrapped_panics:
  assumes "n = 1026"
  shows "showmapping_loop (Suc n) sim_kernel 0xFFFFE000 0xFFFFF000 =
     (concat (map (\<lambda>j. visit sim_kernel (page_addr 0xFFFFE000 j)) [0..<n])
        @ [Pgdir_walk 0x400000, Panic ''pgdir_walk out of memory.\<newline>''],
      Panicked)"
proof -
  have le: "(0xFFFFE000 :: u32) \<le> 0xFFFFF000" by simp
  have lp: "last_page 0xFFFFE000 0xFFFFF000 = 1" by (simp add: last_page_def PGSIZE_def)
  have top: "2 ^ 32 - 4096 \<le> unat (0xFFFFE000 :: u32) + last_page 0xFFFFE000 0xFFFFF000 * 4096"
    by (simp add: lp)
  have guard: "page_addr 0xFFFFE000 j \<le> 0xFFFFF000" for j
    using wrapped_in_range [OF le top] .
  have "\<forall>j<n. page_addr 0xFFFFE000 j \<le> 0xFFFFF000
      \<and> pgdir_walk sim_kernel (page_addr 0xFFFFE000 j) \<noteq> None"
    using guard sim_walk_wrapped assms by simp
  then have u: "showmapping_loop (Suc n) sim_kernel 0xFFFFE000 0xFFFFF000 =
    (concat (map (\<lambda>j. visit sim_kernel (page_addr 0xFFFFE000 j)) [0..<n])
       @ fst (showmapping_loop (Suc n - n) sim_kernel (page_addr 0xFFFFE000 n) 0xFFFFF000),
     snd (showmapping_loop (Suc n - n) sim_kernel (page_addr 0xFFFFE000 n) 0xFFFFF000))"
    by (intro showmapping_loop_unroll) simp_all
  have pa: "page_addr 0xFFFFE000 n = 0x400000" by (simp add: page_addr_def PGSIZE_def assms)
  have w: "pgdir_walk sim_kernel 0x400000 = None" by (simp add: sim_kernel_def)
  have s: "showmapping_loop (Suc 0) sim_kernel 0x400000 0xFFFFF000 =
      ([Pgdir_walk 0x400000, Panic ''pgdir_walk out of memory.\<newline>''], Panicked)"
    using w by simp
  have "Suc n - n = Suc 0" by simp
  then show ?thesis unfolding u pa using s by simp
qed


text \<open>
  C10 without a condition on the accessor fails on the simulated kernel, whose accessor
  returns no entry at \<open>0x400000\<close>. From \<open>0x3FF000\<close> to
  \<open>0x401000\<close> every address of the range is below \<open>2 ^ 32 - PGSIZE\<close> and the range has
  three pages, but the body runs twice and the kernel halts in \<open>panic\<close>. From
  \<open>0xFFFFE000\<close> to \<open>0xFFFFF000\<close> the last address of the range is in the top page, the
  loop wraps around and, in the 1027th run of its body, ends in \<open>panic\<close>.
\<close>

theorem showmapping_wraparound_counterexample:
  "(0x3FF000 :: u32) \<le> 0x401000
   \<and> last_page 0x3FF000 0x401000 = 2
   \<and> unat (0x3FF000 :: u32) + last_page 0x3FF000 0x401000 * 4096 < 2 ^ 32 - 4096
   \<and> showmapping_loop 3 sim_kernel 0x3FF000 0x401000 =
       ([Pgdir_walk 0x3FF000,
         Cprintf ''0x%x: page table entry doesn't exist.\<newline>'' [Num 0x3FF000],
         Pgdir_walk 0x400000,
         Panic ''pgdir_walk out of memory.\<newline>''],
        Panicked)
   \<and> length (filter is_walk (fst (showmapping_loop 3 sim_kernel 0x3FF000 0x401000))) = 2
   \<and> (0xFFFFE000 :: u32) \<le> 0xFFFFF000
   \<and> last_page 0xFFFFE000 0xFFFFF000 = 1
   \<and> 2 ^ 32 - 4096 \<le> unat (0xFFFFE000 :: u32) + last_page 0xFFFFE000 0xFFFFF000 * 4096
   \<and> snd (showmapping_loop 1027 sim_kernel 0xFFFFE000 0xFFFFF000) = Panicked
   \<and> length (filter is_walk (fst (showmapping_loop 1027 sim_kernel 0xFFFFE000 0xFFFFF000)))
       = 1027
   \<and> last (fst (showmapping_loop 1027 sim_kernel 0xFFFFE000 0xFFFFF000))
       = Panic ''pgdir_walk out of memory.\<newline>''"
proof -
  have lp1: "last_page 0x3FF000 0x401000 = 2" by (simp add: last_page_def PGSIZE_def)
  have lp2: "last_page 0xFFFFE000 0xFFFFF000 = 1" by (simp add: last_page_def PGSIZE_def)
  have r1: "showmapping_loop 3 sim_kernel 0x3FF000 0x401000 =
       ([Pgdir_walk 0x3FF000,
         Cprintf ''0x%x: page table entry doesn't exist.\<newline>'' [Num 0x3FF000],
         Pgdir_walk 0x400000,
         Panic ''pgdir_walk out of memory.\<newline>''],
        Panicked)"
    by code_simp
  have n1: "length (filter is_walk (fst (showmapping_loop 3 sim_kernel 0x3FF000 0x401000))) = 2"
    unfolding r1 by (simp add: is_walk_def)
  have s: "(1027 :: nat) = Suc 1026" by simp
  note r2 = sim_wrapped_panics [OF refl]
  have o2: "snd (showmapping_loop 1027 sim_kernel 0xFFFFE000 0xFFFFF000) = Panicked"
    unfolding s r2 by simp
  have n2: "length (filter is_walk (fst (showmapping_loop 1027 sim_kernel 0xFFFFE000 0xFFFFF000)))
       = 1027"
    unfolding s r2 by (simp add: filter_walk_visits is_walk_def)
  have l2: "last (fst (showmapping_loop 1027 sim_kernel 0xFFFFE000 0xFFFFF000))
       = Panic ''pgdir_walk out of memory.\<newline>''"
    unfolding s r2 by simp
  show ?thesis using lp1 lp2 r1 n1 o2 n2 l2 by simp
qed

subsection \<open>What showmappings does at each address\<close>

lemma mon_showmapping_in_order:
  assumes "length argv = 3" and "strtol16 k (argv ! 1) = b" and "strtol16 k (argv ! 2) = e"
    and "b \<le> e"
  shows "mon_showmapping fuel k argv = showmapping_loop fuel k b e"
  using assms by (simp add: mon_showmapping_def Let_def not_less [symmetric])

text \<open>
  The run up to the \<open>j\<close>-th address of the range, when the accessor returned an entry at
  the addresses before it.
\<close>

lemma showmapping_loop_reaches:
  assumes "b \<le> e" and "j \<le> last_page b e"
    and "\<forall>i<j. pgdir_walk k (page_addr b i) \<noteq> None"
    and "j < fuel"
  shows "showmapping_loop fuel k b e =
    (case pgdir_walk k (page_addr b j) of
       None \<Rightarrow>
         (concat (map (\<lambda>i. visit k (page_addr b i)) [0..<j]) @ visit k (page_addr b j),
          Panicked)
     | Some h \<Rightarrow>
         (concat (map (\<lambda>i. visit k (page_addr b i)) [0..<j]) @ visit k (page_addr b j)
            @ fst (showmapping_loop (fuel - Suc j) k (page_addr b (Suc j)) e),
          snd (showmapping_loop (fuel - Suc j) k (page_addr b (Suc j)) e)))"
proof -
  have "\<forall>i<j. page_addr b i \<le> e \<and> pgdir_walk k (page_addr b i) \<noteq> None"
    using assms(2,3) page_addr_in_range(2) [OF assms(1)] by simp
  then have u: "showmapping_loop fuel k b e =
    (concat (map (\<lambda>i. visit k (page_addr b i)) [0..<j])
       @ fst (showmapping_loop (fuel - j) k (page_addr b j) e),
     snd (showmapping_loop (fuel - j) k (page_addr b j) e))"
    using showmapping_loop_unroll [of j b e k fuel] assms(4) by simp
  obtain n where n: "fuel - j = Suc n" using assms(4) by (cases "fuel - j") auto
  then have n': "fuel - Suc j = n" by simp
  have le: "page_addr b j \<le> e" using page_addr_in_range(2) [OF assms(1,2)] .
  show ?thesis
    unfolding u n n' showmapping_loop_step [OF le]
    by (simp add: page_addr_Suc [symmetric] page_addr_def algebra_simps split: option.split)
qed






subsection \<open>showmappings and the accessor's failure\<close>

lemma filter_panic_visit:
  "pgdir_walk k a = Some h \<Longrightarrow> filter is_panic (visit k a) = []"
  by (simp add: visit_def is_panic_def show_entry_def)

lemma filter_panic_visits:
  "\<forall>i<j. pgdir_walk k (f i) \<noteq> None \<Longrightarrow>
     filter is_panic (concat (map (\<lambda>i. visit k (f i)) [0..<j])) = []"
  by (induction j) (auto simp: filter_panic_visit)

lemma showmapping_loop_panicked:
  "snd (showmapping_loop fuel k b e) = Panicked \<Longrightarrow>
     \<exists>pre a. fst (showmapping_loop fuel k b e)
         = pre @ [Pgdir_walk a, Panic ''pgdir_walk out of memory.\<newline>'']
       \<and> pgdir_walk k a = None \<and> filter is_panic pre = []"
proof (induction fuel arbitrary: b)
  case 0
  then show ?case by (simp split: if_splits)
next
  case (Suc n)
  then have b: "b \<le> e" by (auto split: if_splits)
  show ?case
  proof (cases "pgdir_walk k b")
    case None
    then have "fst (showmapping_loop (Suc n) k b e)
        = [] @ [Pgdir_walk b, Panic ''pgdir_walk out of memory.\<newline>'']"
      using b by simp
    then show ?thesis using None by (intro exI [of _ "[]"] exI [of _ b]) simp
  next
    case (Some h)
    then have s: "showmapping_loop (Suc n) k b e =
        (visit k b @ fst (showmapping_loop n k (b + PGSIZE) e),
         snd (showmapping_loop n k (b + PGSIZE) e))"
      using showmapping_loop_step [OF b, of n k] by simp
    then have "snd (showmapping_loop n k (b + PGSIZE) e) = Panicked"
      using Suc.prems by simp
    then obtain pre a where p:
      "fst (showmapping_loop n k (b + PGSIZE) e)
         = pre @ [Pgdir_walk a, Panic ''pgdir_walk out of memory.\<newline>'']"
      "pgdir_walk k a = None" "filter is_panic pre = []"
      using Suc.IH by blast
    show ?thesis
      using s p filter_panic_visit [OF Some]
      by (intro exI [of _ "visit k b @ pre"] exI [of _ a]) simp
  qed
qed

lemma showmapping_loop_quiet:
  "snd (showmapping_loop fuel k b e) \<noteq> Panicked \<Longrightarrow>
     filter is_panic (fst (showmapping_loop fuel k b e)) = []"
proof (induction fuel arbitrary: b)
  case 0
  then show ?case by simp
next
  case (Suc n)
  show ?case
  proof (cases "b \<le> e")
    case True
    show ?thesis
    proof (cases "pgdir_walk k b")
      case None
      then show ?thesis using Suc.prems True by simp
    next
      case (Some h)
      then have s: "showmapping_loop (Suc n) k b e =
          (visit k b @ fst (showmapping_loop n k (b + PGSIZE) e),
           snd (showmapping_loop n k (b + PGSIZE) e))"
        using showmapping_loop_step [OF True, of n k] by simp
      then have "filter is_panic (fst (showmapping_loop n k (b + PGSIZE) e)) = []"
        using Suc.prems Suc.IH by simp
      then show ?thesis using s filter_panic_visit [OF Some] by simp
    qed
  next
    case False
    then show ?thesis by simp
  qed
qed


text \<open>
  C7. In the iteration of \<open>showmappings\<close> (addresses parsed with \<open>begin \<le> end\<close>): at the
  first address of the range for which the accessor returns no entry, the monitor calls
  \<open>panic\<close> and halts, with nothing printed for that address and no later address
  visited. A run halts only in this way: a halted run ends with the accessor's call that
  returned no entry, followed by the panic, and a run in which the accessor returns an
  entry for every address does not halt, whatever the present bits of the entries; an
  entry whose present bit is clear gets its line and the loop goes on.
\<close>

theorem showmapping_accessor_failure:
  assumes "length argv = 3" and "strtol16 k (argv ! 1) = b" and "strtol16 k (argv ! 2) = e"
    and "b \<le> e"
  shows "(\<forall>j<fuel. unat b + j * 4096 \<le> unat e
            \<and> (\<forall>i<j. pgdir_walk k (page_addr b i) \<noteq> None)
            \<and> pgdir_walk k (page_addr b j) = None \<longrightarrow>
          mon_showmapping fuel k argv =
            (concat (map (\<lambda>i. visit k (page_addr b i)) [0..<j])
               @ [Pgdir_walk (page_addr b j), Panic ''pgdir_walk out of memory.\<newline>''],
             Panicked)
          \<and> filter is_panic (concat (map (\<lambda>i. visit k (page_addr b i)) [0..<j])) = [])
    \<and> (snd (mon_showmapping fuel k argv) = Panicked \<longrightarrow>
          (\<exists>pre a. fst (mon_showmapping fuel k argv)
               = pre @ [Pgdir_walk a, Panic ''pgdir_walk out of memory.\<newline>'']
             \<and> pgdir_walk k a = None \<and> filter is_panic pre = []))
    \<and> (snd (mon_showmapping fuel k argv) \<noteq> Panicked \<longrightarrow>
          filter is_panic (fst (mon_showmapping fuel k argv)) = [])
    \<and> ((\<forall>a. pgdir_walk k a \<noteq> None) \<longrightarrow> snd (mon_showmapping fuel k argv) \<noteq> Panicked)
    \<and> (\<forall>j<fuel. \<forall>h. unat b + j * 4096 \<le> unat e
            \<and> (\<forall>i<j. pgdir_walk k (page_addr b i) \<noteq> None)
            \<and> pgdir_walk k (page_addr b j) = Some h \<and> mem k h AND PTE_P = 0 \<longrightarrow>
          mon_showmapping fuel k argv =
            (concat (map (\<lambda>i. visit k (page_addr b i)) [0..<j])
               @ [Pgdir_walk (page_addr b j),
                  Cprintf ''0x%x: page table entry doesn't exist.\<newline>'' [Num (page_addr b j)]]
               @ fst (showmapping_loop (fuel - Suc j) k (page_addr b (Suc j)) e),
             snd (showmapping_loop (fuel - Suc j) k (page_addr b (Suc j)) e)))"
proof -
  note m = mon_showmapping_in_order [OF assms, of fuel]
  have p1: "mon_showmapping fuel k argv =
            (concat (map (\<lambda>i. visit k (page_addr b i)) [0..<j])
               @ [Pgdir_walk (page_addr b j), Panic ''pgdir_walk out of memory.\<newline>''],
             Panicked)
          \<and> filter is_panic (concat (map (\<lambda>i. visit k (page_addr b i)) [0..<j])) = []"
    if "j < fuel" and "unat b + j * 4096 \<le> unat e"
      and "\<forall>i<j. pgdir_walk k (page_addr b i) \<noteq> None"
      and "pgdir_walk k (page_addr b j) = None" for j
  proof -
    have j: "j \<le> last_page b e" using that(2) last_page_le [OF assms(4)] by simp
    show ?thesis
      using showmapping_loop_reaches [OF assms(4) j that(3,1)] that(4) m
        filter_panic_visits [OF that(3)]
      by (simp add: visit_def)
  qed
  have p2: "\<exists>pre a. fst (mon_showmapping fuel k argv)
               = pre @ [Pgdir_walk a, Panic ''pgdir_walk out of memory.\<newline>'']
             \<and> pgdir_walk k a = None \<and> filter is_panic pre = []"
    if "snd (mon_showmapping fuel k argv) = Panicked"
    using that showmapping_loop_panicked [of fuel k b e] unfolding m by simp
  have p3: "filter is_panic (fst (mon_showmapping fuel k argv)) = []"
    if "snd (mon_showmapping fuel k argv) \<noteq> Panicked"
    using that showmapping_loop_quiet [of fuel k b e] unfolding m by simp
  have p4: "snd (mon_showmapping fuel k argv) \<noteq> Panicked" if "\<forall>a. pgdir_walk k a \<noteq> None"
    using that p2 by blast
  have p5: "mon_showmapping fuel k argv =
            (concat (map (\<lambda>i. visit k (page_addr b i)) [0..<j])
               @ [Pgdir_walk (page_addr b j),
                  Cprintf ''0x%x: page table entry doesn't exist.\<newline>'' [Num (page_addr b j)]]
               @ fst (showmapping_loop (fuel - Suc j) k (page_addr b (Suc j)) e),
             snd (showmapping_loop (fuel - Suc j) k (page_addr b (Suc j)) e))"
    if "j < fuel" and "unat b + j * 4096 \<le> unat e"
      and "\<forall>i<j. pgdir_walk k (page_addr b i) \<noteq> None"
      and "pgdir_walk k (page_addr b j) = Some h" and "mem k h AND PTE_P = 0" for j h
  proof -
    have j: "j \<le> last_page b e" using that(2) last_page_le [OF assms(4)] by simp
    show ?thesis
      using showmapping_loop_reaches [OF assms(4) j that(3,1)] that(4,5) m
      by (simp add: visit_def show_entry_def)
  qed
  show ?thesis using p1 p2 p3 p4 p5 by blast
qed

theorem showmapping_accessor_failure_witness:
  "length [''showmappings'', ''0x3FF000'', ''0x401000''] = 3
   \<and> strtol16 sim_kernel ([''showmappings'', ''0x3FF000'', ''0x401000''] ! 1) = 0x3FF000
   \<and> strtol16 sim_kernel ([''showmappings'', ''0x3FF000'', ''0x401000''] ! 2) = 0x401000
   \<and> (0x3FF000 :: u32) \<le> 0x401000
   \<and> pgdir_walk sim_kernel 0x3FF000 = Some 0x3FFC
   \<and> mem sim_kernel 0x3FFC AND PTE_P = 0
   \<and> pgdir_walk sim_kernel 0x400000 = None
   \<and> mon_showmapping 5 sim_kernel [''showmappings'', ''0x3FF000'', ''0x401000''] =
       ([Pgdir_walk 0x3FF000,
         Cprintf ''0x%x: page table entry doesn't exist.\<newline>'' [Num 0x3FF000],
         Pgdir_walk 0x400000,
         Panic ''pgdir_walk out of memory.\<newline>''],
        Panicked)"
proof -
  let ?argv = "[''showmappings'', ''0x3FF000'', ''0x401000'']"
  have h1: "length ?argv = 3" by simp
  have h2: "strtol16 sim_kernel (?argv ! 1) = 0x3FF000"
    by (simp add: sim_kernel_def sim_strtol16_def hex_digit_def)
  have h3: "strtol16 sim_kernel (?argv ! 2) = 0x401000"
    by (simp add: sim_kernel_def sim_strtol16_def hex_digit_def)
  have h4: "(0x3FF000 :: u32) \<le> 0x401000" by simp
  have w0: "pgdir_walk sim_kernel 0x3FF000 = Some 0x3FFC" by (simp add: sim_kernel_def)
  have m0: "mem sim_kernel 0x3FFC AND PTE_P = 0" by (simp add: sim_kernel_def)
  have pa: "page_addr 0x3FF000 1 = 0x400000" by (simp add: page_addr_def PGSIZE_def)
  have w1: "pgdir_walk sim_kernel 0x400000 = None" by (simp add: sim_kernel_def)
  have pre: "\<forall>i<1. pgdir_walk sim_kernel (page_addr 0x3FF000 i) \<noteq> None"
    using w0 by simp
  have v: "visit sim_kernel 0x3FF000 =
      [Pgdir_walk 0x3FF000, Cprintf ''0x%x: page table entry doesn't exist.\<newline>'' [Num 0x3FF000]]"
    using w0 m0 by (simp add: visit_def show_entry_def)
  have "mon_showmapping 5 sim_kernel ?argv =
      (concat (map (\<lambda>i. visit sim_kernel (page_addr 0x3FF000 i)) [0..<1])
         @ [Pgdir_walk (page_addr 0x3FF000 1), Panic ''pgdir_walk out of memory.\<newline>''],
       Panicked)"
    using showmapping_accessor_failure [OF h1 h2 h3 h4, of 5, THEN conjunct1, rule_format, of 1]
      pre w1 pa
    by simp
  then show ?thesis using h2 h3 w0 m0 w1 pa v by simp
qed

subsection \<open>setpermission\<close>

lemma mon_setpermission_walked:
  assumes "length argv = 4" and "pgdir_walk k (strtol16 k (argv ! 1)) = Some h"
  shows "mon_setpermission k argv =
    ([Pgdir_walk (strtol16 k (argv ! 1)),
      Cprintf ''Before setting:\<newline>'' [],
      show_entry (strtol16 k (argv ! 1)) (mem k h),
      Cprintf ''After setting:\<newline>'' [],
      show_entry (strtol16 k (argv ! 1))
        (set_entry (first_char (argv ! 2)) (perm_mask (first_char (argv ! 3))) (mem k h))],
     Returned 0,
     k\<lparr>mem := (mem k)
        (h := set_entry (first_char (argv ! 2)) (perm_mask (first_char (argv ! 3))) (mem k h))\<rparr>)"
  using assms by (simp add: mon_setpermission_def Let_def)

lemma set_then_clear:
  fixes e :: u32
  assumes "e AND B = 0"
  shows "(e OR B) XOR e = B" and "(e OR B) AND NOT B = e"
  using assms by (auto simp: bit_eq_iff bit_simps)

text \<open>
  C1. For every entry word \<open>e\<close> and targeted bit \<open>B\<close> among P (selector \<open>p\<close>, bit 0),
  W (selector \<open>w\<close>, bit 1) and U (selector \<open>u\<close>, bit 2) with \<open>e AND B = 0\<close>: the
  selector is decoded to \<open>B\<close>, the set step (direction \<open>s\<close>) yields \<open>e OR B\<close>, which
  differs from \<open>e\<close> in the bit \<open>B\<close> and in no other, and the clear step (direction
  \<open>c\<close>, same selector) on the result gives back \<open>e\<close>. For the command on an address
  whose entry is at \<open>h\<close>: \<open>setpermission a s sel\<close> stores \<open>e OR B\<close> at \<open>h\<close> and changes
  nothing else, and \<open>setpermission a c sel\<close> after it restores the kernel state.
\<close>

theorem setpermission_round_trip:
  assumes "(sel, B) \<in> {(CHR ''p'', PTE_P), (CHR ''w'', PTE_W), (CHR ''u'', PTE_U)}"
    and "pgdir_walk k (strtol16 k a) = Some h"
    and "mem k h = e"
    and "e AND B = 0"
  shows "perm_mask sel = B
    \<and> B = (if sel = CHR ''p'' then 1 else if sel = CHR ''w'' then 2 else 4)
    \<and> set_entry (CHR ''s'') (perm_mask sel) e = e OR B
    \<and> set_entry (CHR ''s'') (perm_mask sel) e XOR e = B
    \<and> (\<forall>n. bit (set_entry (CHR ''s'') (perm_mask sel) e) n =
          (bit e n \<or> n = (if sel = CHR ''p'' then 0 else if sel = CHR ''w'' then 1 else 2)))
    \<and> set_entry (CHR ''c'') (perm_mask sel) (set_entry (CHR ''s'') (perm_mask sel) e) = e
    \<and> (case mon_setpermission k [c, a, CHR ''s'' # ds, sel # ps] of (evs1, r1, k1) \<Rightarrow>
          r1 = Returned 0 \<and> mem k1 = (mem k)(h := e OR B)
          \<and> (case mon_setpermission k1 [c', a, CHR ''c'' # ds', sel # ps'] of (evs2, r2, k2) \<Rightarrow>
                r2 = Returned 0 \<and> k2 = k))"
proof -
  let ?k1 = "k\<lparr>mem := (mem k)(h := e OR B)\<rparr>"
  have m: "perm_mask sel = B"
    using assms(1) by (auto simp: perm_mask_def)
  have v: "B = (if sel = CHR ''p'' then 1 else if sel = CHR ''w'' then 2 else 4)"
    using assms(1) by (auto simp: PTE_P_def PTE_W_def PTE_U_def)
  note sc = set_then_clear [OF assms(4)]
  have s1: "set_entry (CHR ''s'') (perm_mask sel) e = e OR B"
    by (simp add: set_entry_def m)
  have s2: "set_entry (CHR ''c'') (perm_mask sel) (e OR B) = e"
    using sc(2) by (simp add: set_entry_def m)
  have bits: "bit (e OR B) n =
      (bit e n \<or> n = (if sel = CHR ''p'' then 0 else if sel = CHR ''w'' then 1 else 2))" for n
  proof -
    have "B = push_bit (if sel = CHR ''p'' then 0 else if sel = CHR ''w'' then 1 else 2) 1"
      using v by simp
    then have "bit B n = (n = (if sel = CHR ''p'' then 0 else if sel = CHR ''w'' then 1 else 2))"
      by (auto simp: bit_simps)
    then show ?thesis by (simp add: bit_or_iff)
  qed
  have r1: "mon_setpermission k [c, a, CHR ''s'' # ds, sel # ps]
      = ([Pgdir_walk (strtol16 k a), Cprintf ''Before setting:\<newline>'' [],
          show_entry (strtol16 k a) e, Cprintf ''After setting:\<newline>'' [],
          show_entry (strtol16 k a) (e OR B)], Returned 0, ?k1)"
    using mon_setpermission_walked [of "[c, a, CHR ''s'' # ds, sel # ps]" k h] assms(2,3) s1
    by (simp add: first_char_def)
  have w1: "pgdir_walk ?k1 (strtol16 ?k1 a) = Some h" using assms(2) by simp
  have restore: "?k1\<lparr>mem := (mem ?k1)(h := e)\<rparr> = k"
    using assms(3) by (cases k) (simp add: fun_eq_iff)
  have r2: "snd (mon_setpermission ?k1 [c', a, CHR ''c'' # ds', sel # ps']) = (Returned 0, k)"
    using mon_setpermission_walked [of "[c', a, CHR ''c'' # ds', sel # ps']" ?k1 h] w1 s2 restore
    by (simp add: first_char_def)
  show ?thesis using m v sc(1) s1 s2 bits r1 r2 by (simp add: split_beta)
qed

theorem setpermission_round_trip_witness:
  "(CHR ''u'', PTE_U) \<in> {(CHR ''p'', PTE_P), (CHR ''w'', PTE_W), (CHR ''u'', PTE_U)}
   \<and> pgdir_walk sim_kernel (strtol16 sim_kernel ''0x2000'') = Some 0x3008
   \<and> mem sim_kernel 0x3008 = 0x5003
   \<and> (0x5003 :: u32) AND PTE_U = 0
   \<and> perm_mask (CHR ''u'') = 4
   \<and> set_entry (CHR ''s'') (perm_mask (CHR ''u'')) 0x5003 = 0x5007
   \<and> set_entry (CHR ''c'') (perm_mask (CHR ''u'')) 0x5007 = 0x5003
   \<and> mem (snd (snd (mon_setpermission sim_kernel
         [''setpremission'', ''0x2000'', ''s'', ''u'']))) 0x3008 = 0x5007
   \<and> snd (snd (mon_setpermission
         (snd (snd (mon_setpermission sim_kernel [''setpremission'', ''0x2000'', ''s'', ''u''])))
         [''setpremission'', ''0x2000'', ''c'', ''u''])) = sim_kernel"
proof -
  have h1: "(CHR ''u'', PTE_U) \<in> {(CHR ''p'', PTE_P), (CHR ''w'', PTE_W), (CHR ''u'', PTE_U)}"
    by simp
  have h2: "pgdir_walk sim_kernel (strtol16 sim_kernel ''0x2000'') = Some 0x3008"
    by (simp add: sim_kernel_def sim_strtol16_def hex_digit_def)
  have h3: "mem sim_kernel 0x3008 = 0x5003" by (simp add: sim_kernel_def)
  have h4: "(0x5003 :: u32) AND PTE_U = 0" by (simp add: PTE_U_def)
  have v: "(0x5003 :: u32) OR PTE_U = 0x5007" "PTE_U = 4" by (simp_all add: PTE_U_def)
  note t = setpermission_round_trip [OF h1 h2 h3 h4,
      of "''setpremission''" "[]" "[]" "''setpremission''" "[]" "[]"]
  have a: "perm_mask (CHR ''u'') = 4"
    using t [THEN conjunct1] v(2) by (rule trans)
  have b: "set_entry (CHR ''s'') (perm_mask (CHR ''u'')) 0x5003 = 0x5007"
    using t [THEN conjunct2, THEN conjunct2, THEN conjunct1] v(1) by (rule trans)
  have c: "set_entry (CHR ''c'') (perm_mask (CHR ''u'')) 0x5007 = 0x5003"
    using t [THEN conjunct2, THEN conjunct2, THEN conjunct2, THEN conjunct2, THEN conjunct2,
        THEN conjunct1]
    unfolding b .
  have d: "mem (snd (snd (mon_setpermission sim_kernel
         [''setpremission'', ''0x2000'', ''s'', ''u'']))) 0x3008 = 0x5007"
    using t v(1) by (auto simp: split_beta)
  have e: "snd (snd (mon_setpermission
         (snd (snd (mon_setpermission sim_kernel [''setpremission'', ''0x2000'', ''s'', ''u''])))
         [''setpremission'', ''0x2000'', ''c'', ''u''])) = sim_kernel"
    using t by (auto simp: split_beta)
  show ?thesis using h1 h2 h3 h4 a b c d e by (intro conjI)
qed

subsection \<open>setpermission and the accessor's failure\<close>

lemma mon_setpermission_null:
  assumes "length argv = 4" and "pgdir_walk k (strtol16 k (argv ! 1)) = None"
  shows "mon_setpermission k argv =
    ([Pgdir_walk (strtol16 k (argv ! 1)), Cprintf ''Before setting:\<newline>'' []], Undefined, k)"
  using assms by (simp add: mon_setpermission_def Let_def)

lemma showmapping_loop_null:
  assumes "pgdir_walk k a = None"
  shows "showmapping_loop (Suc n) k a a =
    ([Pgdir_walk a, Panic ''pgdir_walk out of memory.\<newline>''], Panicked)"
  using assms by simp

text \<open>
  C9. With four arguments \<open>setpermission\<close> uses the accessor's result unchecked. When
  the accessor returns an entry it reads, modifies and reprints the entry word and
  returns 0. When the accessor returns the null pointer the function dereferences it
  right after printing the first header: undefined behaviour, with no panic, where
  \<open>showmappings\<close> on the same address checks and halts. No run of \<open>setpermission\<close>
  calls \<open>panic\<close>.
\<close>

theorem setpermission_unchecked_walk:
  assumes "length argv = 4"
  shows "(pgdir_walk k (strtol16 k (argv ! 1)) = None \<longrightarrow>
            mon_setpermission k argv =
              ([Pgdir_walk (strtol16 k (argv ! 1)), Cprintf ''Before setting:\<newline>'' []],
               Undefined, k)
            \<and> mon_showmapping (Suc n) k [c, argv ! 1, argv ! 1] =
              ([Pgdir_walk (strtol16 k (argv ! 1)), Panic ''pgdir_walk out of memory.\<newline>''],
               Panicked))
    \<and> (\<forall>h. pgdir_walk k (strtol16 k (argv ! 1)) = Some h \<longrightarrow>
            mon_setpermission k argv =
              ([Pgdir_walk (strtol16 k (argv ! 1)),
                Cprintf ''Before setting:\<newline>'' [],
                show_entry (strtol16 k (argv ! 1)) (mem k h),
                Cprintf ''After setting:\<newline>'' [],
                show_entry (strtol16 k (argv ! 1))
                  (set_entry (first_char (argv ! 2)) (perm_mask (first_char (argv ! 3))) (mem k h))],
               Returned 0,
               k\<lparr>mem := (mem k)
                 (h := set_entry (first_char (argv ! 2)) (perm_mask (first_char (argv ! 3)))
                         (mem k h))\<rparr>))
    \<and> fst (snd (mon_setpermission k argv)) \<noteq> Panicked
    \<and> filter is_panic (fst (mon_setpermission k argv)) = []"
proof (cases "pgdir_walk k (strtol16 k (argv ! 1))")
  case None
  have "mon_showmapping (Suc n) k [c, argv ! 1, argv ! 1] =
      ([Pgdir_walk (strtol16 k (argv ! 1)), Panic ''pgdir_walk out of memory.\<newline>''], Panicked)"
    using showmapping_loop_null [OF None, of n]
    by (simp add: mon_showmapping_def Let_def del: showmapping_loop.simps)
  then show ?thesis
    using None mon_setpermission_null [OF assms None] by (simp add: is_panic_def)
next
  case (Some h)
  then show ?thesis
    using mon_setpermission_walked [OF assms Some]
    by (simp add: is_panic_def show_entry_def)
qed

theorem setpermission_unchecked_walk_witness:
  "length [''setpremission'', ''0x400000'', ''s'', ''u''] = 4
   \<and> pgdir_walk sim_kernel (strtol16 sim_kernel ''0x400000'') = None
   \<and> mon_setpermission sim_kernel [''setpremission'', ''0x400000'', ''s'', ''u'']
       = ([Pgdir_walk 0x400000, Cprintf ''Before setting:\<newline>'' []], Undefined, sim_kernel)
   \<and> mon_showmapping 1 sim_kernel [''showmappings'', ''0x400000'', ''0x400000'']
       = ([Pgdir_walk 0x400000, Panic ''pgdir_walk out of memory.\<newline>''], Panicked)"
proof -
  have h: "length [''setpremission'', ''0x400000'', ''s'', ''u''] = 4" by simp
  have a: "strtol16 sim_kernel ''0x400000'' = 0x400000"
    by (simp add: sim_kernel_def sim_strtol16_def hex_digit_def)
  have w: "pgdir_walk sim_kernel 0x400000 = None"
    by (simp add: sim_kernel_def)
  show ?thesis
    using setpermission_unchecked_walk [OF h, of sim_kernel 0 "''showmappings''"] a w
    by simp
qed

end
